theory Spec2Isabelle
  imports Main "HOL-Library.Word" "HOL-Library.Multiset"
begin

section \<open>Common types\<close>

text \<open>
  The paged KV cache (\<^verbatim>\<open>llama-kv-cache-paged.cpp\<close>) works on \<^verbatim>\<open>uint32_t\<close>
  values, modelled as 32-bit words: \<open>+\<close>, \<open>-\<close> and \<open>*\<close> wrap around as in C++.
  \<^verbatim>\<open>llama_seq_id\<close> and \<^verbatim>\<open>llama_pos\<close> are declared in \<^verbatim>\<open>llama.h\<close>, outside
  these sources, as \<^verbatim>\<open>int32_t\<close>: the same 32 bits, read as signed with \<open>sint\<close>
  (the source asserts \<^verbatim>\<open>pos >= 0\<close> and casts \<^verbatim>\<open>pos\<close> to \<^verbatim>\<open>uint32_t\<close>).
\<close>

type_synonym u32 = "32 word"
type_synonym llama_seq_id = "32 word"
type_synonym llama_pos = "32 word"

text \<open>
  The sources check their contracts with \<^verbatim>\<open>assert\<close>. An assertion aborts the
  process in a build without \<^verbatim>\<open>NDEBUG\<close> (\<open>Debug\<close>) and is compiled away in a
  build with it (\<open>Release\<close>). Every function of the paged cache takes the build as its
  first argument. A failed assertion of a debug build is the outcome \<open>AssertFail\<close>;
  an operation the C++ standard leaves undefined (reading a vector out of range,
  \<^verbatim>\<open>back()\<close> of an empty vector, dereferencing \<^verbatim>\<open>end()\<close>, dividing by zero,
  signed overflow) is the outcome \<open>Undefined\<close>.
\<close>

datatype build = Debug | Release

datatype failure = AssertFail | Undefined

section \<open>llama_block_allocator\<close>

record llama_block_allocator =
  block_size :: u32
  num_blocks :: u32
  free_list :: "u32 list"
  ref_count :: "u32 list"

text \<open>
  The constructor's loop
  \<^verbatim>\<open>for (uint32_t i = num_blocks; i > 0; --i) free_list.push_back(i - 1);\<close>
\<close>

function ctor_loop :: "u32 \<Rightarrow> u32 list \<Rightarrow> u32 list" where
  "ctor_loop i fl = (if i > 0 then ctor_loop (i - 1) (fl @ [i - 1]) else fl)"
  by pat_completeness auto
termination
proof (relation "measure (\<lambda>(i, fl). unat i)")
  show "wf (measure (\<lambda>(i, fl). unat i))"
    by simp
next
  fix i :: u32 and fl :: "u32 list"
  assume "0 < i"
  then have "i \<noteq> 0"
    by auto
  then have "unat (i - 1) < unat i"
    by (simp add: unat_minus_one unat_gt_0)
  then show "((i - 1, fl @ [i - 1]), (i, fl)) \<in> measure (\<lambda>(i, fl). unat i)"
    by simp
qed

declare ctor_loop.simps [simp del]

text \<open>
  The member initialisers run before the body: \<^verbatim>\<open>total_cells / blk_size\<close> is
  evaluated before \<^verbatim>\<open>assert(blk_size > 0)\<close>, so a zero block size divides by zero
  in either build.
\<close>

definition llama_block_allocator_new ::
    "build \<Rightarrow> u32 \<Rightarrow> u32 \<Rightarrow> failure + llama_block_allocator" where
  "llama_block_allocator_new bd total_cells blk_size =
     (if blk_size = 0 then Inl Undefined
      else if bd = Debug \<and> \<not> total_cells \<ge> blk_size then Inl AssertFail
      else Inr \<lparr> block_size = blk_size,
                 num_blocks = total_cells div blk_size,
                 free_list = ctor_loop (total_cells div blk_size) [],
                 ref_count = replicate (unat (total_cells div blk_size)) 0 \<rparr>)"

text \<open>
  \<^verbatim>\<open>allocate\<close>: \<^verbatim>\<open>back()\<close>/\<^verbatim>\<open>pop_back()\<close> are \<open>last\<close>/\<open>butlast\<close>. The block
  id is returned together with the updated allocator.
\<close>

definition allocate :: "build \<Rightarrow> llama_block_allocator \<Rightarrow> failure + (u32 \<times> llama_block_allocator)" where
  "allocate bd a =
     (if free_list a = [] then (if bd = Debug then Inl AssertFail else Inl Undefined)
      else
        let block_id = last (free_list a);
            fl = butlast (free_list a)
        in if \<not> unat block_id < length (ref_count a) then Inl Undefined
           else if bd = Debug \<and> \<not> ref_count a ! unat block_id = 0 then Inl AssertFail
           else Inr (block_id, a \<lparr> free_list := fl, ref_count := (ref_count a)[unat block_id := 1] \<rparr>))"

definition free_block :: "build \<Rightarrow> llama_block_allocator \<Rightarrow> u32 \<Rightarrow> failure + llama_block_allocator" where
  "free_block bd a block_id =
     (if bd = Debug \<and> \<not> block_id < num_blocks a then Inl AssertFail
      else if \<not> unat block_id < length (ref_count a) then Inl Undefined
      else if bd = Debug \<and> \<not> ref_count a ! unat block_id > 0 then Inl AssertFail
      else
        let rc = (ref_count a)[unat block_id := ref_count a ! unat block_id - 1]
        in if rc ! unat block_id = 0
           then Inr (a \<lparr> free_list := free_list a @ [block_id], ref_count := rc \<rparr>)
           else Inr (a \<lparr> ref_count := rc \<rparr>))"

definition inc_ref :: "build \<Rightarrow> llama_block_allocator \<Rightarrow> u32 \<Rightarrow> failure + llama_block_allocator" where
  "inc_ref bd a block_id =
     (if bd = Debug \<and> \<not> block_id < num_blocks a then Inl AssertFail
      else if \<not> unat block_id < length (ref_count a) then Inl Undefined
      else if bd = Debug \<and> \<not> ref_count a ! unat block_id > 0 then Inl AssertFail
      else Inr (a \<lparr> ref_count := (ref_count a)[unat block_id := ref_count a ! unat block_id + 1] \<rparr>))"

definition can_allocate :: "llama_block_allocator \<Rightarrow> u32 \<Rightarrow> bool" where
  "can_allocate a n_blocks \<longleftrightarrow> length (free_list a) \<ge> unat n_blocks"

definition num_free :: "llama_block_allocator \<Rightarrow> u32" where
  "num_free a = of_nat (length (free_list a))"

definition total :: "llama_block_allocator \<Rightarrow> u32" where
  "total a = num_blocks a"

text \<open>
  The shape every allocator state has (the reference counts are one per block, the free
  list holds block ids), and the free-list invariant: no block is twice in the free list,
  and a block is in the free list exactly when its reference count is zero.
\<close>

definition alloc_wf :: "llama_block_allocator \<Rightarrow> bool" where
  "alloc_wf a \<longleftrightarrow>
     length (ref_count a) = unat (num_blocks a) \<and> (\<forall>b \<in> set (free_list a). b < num_blocks a)"

definition alloc_inv :: "llama_block_allocator \<Rightarrow> bool" where
  "alloc_inv a \<longleftrightarrow>
     distinct (free_list a) \<and>
     (\<forall>b. b < num_blocks a \<longrightarrow> (ref_count a ! unat b = 0 \<longleftrightarrow> b \<in> set (free_list a)))"

section \<open>llama_block_table\<close>

text \<open>
  \<^verbatim>\<open>tables\<close> is a \<^verbatim>\<open>std::unordered_map<llama_seq_id, std::vector<uint32_t>>\<close>:
  a partial map from sequence ids to block lists. The table's own \<^verbatim>\<open>block_size\<close>
  field is named \<open>tbl_block_size\<close> here, apart from the allocator's.
\<close>

record llama_block_table =
  tbl_block_size :: u32
  tables :: "llama_seq_id \<rightharpoonup> u32 list"

text \<open>
  \<^verbatim>\<open>(uint32_t) pos / block_size\<close>: the cast binds first and keeps the 32 bits.
  In a release build an unknown sequence dereferences \<^verbatim>\<open>tables.end()\<close> and a
  position past the last block reads the vector out of range.
\<close>

definition logical_to_physical ::
    "build \<Rightarrow> llama_block_table \<Rightarrow> llama_seq_id \<Rightarrow> llama_pos \<Rightarrow> failure + u32" where
  "logical_to_physical bd t seq pos =
     (if bd = Debug \<and> \<not> 0 \<le> sint pos then Inl AssertFail
      else case tables t seq of
        None \<Rightarrow> (if bd = Debug then Inl AssertFail else Inl Undefined)
      | Some blocks \<Rightarrow>
          if tbl_block_size t = 0 then Inl Undefined
          else
            let logical_block = pos div tbl_block_size t
            in if \<not> unat logical_block < length blocks
               then (if bd = Debug then Inl AssertFail else Inl Undefined)
               else Inr (blocks ! unat logical_block * tbl_block_size t + pos mod tbl_block_size t))"

definition append_block :: "llama_block_table \<Rightarrow> llama_seq_id \<Rightarrow> u32 \<Rightarrow> llama_block_table" where
  "append_block t seq block_id =
     t \<lparr> tables := (tables t)(seq \<mapsto> (case tables t seq of None \<Rightarrow> [] | Some blocks \<Rightarrow> blocks) @ [block_id]) \<rparr>"

definition capacity :: "llama_block_table \<Rightarrow> llama_seq_id \<Rightarrow> u32" where
  "capacity t seq =
     (case tables t seq of None \<Rightarrow> 0 | Some blocks \<Rightarrow> of_nat (length blocks) * tbl_block_size t)"

definition needs_new_block :: "llama_block_table \<Rightarrow> llama_seq_id \<Rightarrow> u32 \<Rightarrow> bool" where
  "needs_new_block t seq new_total_tokens \<longleftrightarrow> new_total_tokens > capacity t seq"

definition num_blocks_for :: "llama_block_table \<Rightarrow> llama_seq_id \<Rightarrow> u32" where
  "num_blocks_for t seq = (case tables t seq of None \<Rightarrow> 0 | Some blocks \<Rightarrow> of_nat (length blocks))"

definition has_seq :: "llama_block_table \<Rightarrow> llama_seq_id \<Rightarrow> bool" where
  "has_seq t seq \<longleftrightarrow> tables t seq \<noteq> None"



text \<open>The loop \<^verbatim>\<open>for (uint32_t block_id : it->second) alloc.free_block(block_id);\<close>\<close>

fun free_all :: "build \<Rightarrow> llama_block_allocator \<Rightarrow> u32 list \<Rightarrow> failure + llama_block_allocator" where
  "free_all bd a [] = Inr a"
| "free_all bd a (block_id # rest) =
     (case free_block bd a block_id of
        Inl e \<Rightarrow> Inl e
      | Inr a' \<Rightarrow> free_all bd a' rest)"

definition free_seq ::
    "build \<Rightarrow> llama_block_table \<Rightarrow> llama_seq_id \<Rightarrow> llama_block_allocator
      \<Rightarrow> failure + (llama_block_table \<times> llama_block_allocator)" where
  "free_seq bd t seq alloc =
     (case tables t seq of
        None \<Rightarrow> Inr (t, alloc)
      | Some blocks \<Rightarrow>
          (case free_all bd alloc blocks of
             Inl e \<Rightarrow> Inl e
           | Inr alloc' \<Rightarrow> Inr (t \<lparr> tables := (tables t)(seq := None) \<rparr>, alloc')))"

text \<open>
  The loop of \<^verbatim>\<open>remove_blocks_range\<close>:
  \<^verbatim>\<open>for (uint32_t i = block_start; i < block_end; ++i) alloc.free_block(blocks[i]);\<close>
\<close>

function free_range ::
    "build \<Rightarrow> llama_block_allocator \<Rightarrow> u32 list \<Rightarrow> u32 \<Rightarrow> u32 \<Rightarrow> failure + llama_block_allocator" where
  "free_range bd a blocks i block_end =
     (if i < block_end then
        (if \<not> unat i < length blocks then Inl Undefined
         else case free_block bd a (blocks ! unat i) of
                Inl e \<Rightarrow> Inl e
              | Inr a' \<Rightarrow> free_range bd a' blocks (i + 1) block_end)
      else Inr a)"
  by pat_completeness auto
termination
proof (relation "measure (\<lambda>(bd, a, blocks, i, block_end). unat block_end - unat i)")
  show "wf (measure (\<lambda>(bd, a, blocks, i, block_end). unat block_end - unat i))"
    by simp
next
  fix bd :: build and a x2 :: llama_block_allocator and blocks :: "u32 list" and i block_end :: u32
  assume lt: "i < block_end"
  then have "unat i < unat block_end"
    by (simp add: word_less_nat_alt)
  moreover have "unat block_end < 2 ^ 32"
    using unsigned_less [of block_end] by simp
  ultimately have "unat i + unat (1 :: u32) < 2 ^ LENGTH(32)"
    by simp
  then have "unat (i + 1) = unat i + 1"
    by (simp add: unat_add_lem [THEN iffD1])
  with \<open>unat i < unat block_end\<close> show "((bd, x2, blocks, i + 1, block_end), (bd, a, blocks, i, block_end))
      \<in> measure (\<lambda>(bd, a, blocks, i, block_end). unat block_end - unat i)"
    by simp
qed

declare free_range.simps [simp del]

text \<open>
  \<^verbatim>\<open>remove_blocks_range\<close>: \<^verbatim>\<open>(pos_end + block_size - 1) / block_size\<close> is
  computed in \<^verbatim>\<open>uint32_t\<close> and wraps around; \<^verbatim>\<open>(uint32_t) blocks.size()\<close>
  keeps the low 32 bits of the length. \<^verbatim>\<open>blocks.erase(first, last)\<close> keeps the
  entries before \<open>block_start\<close> and from \<open>block_end\<close> on.
\<close>

definition remove_blocks_range ::
    "build \<Rightarrow> llama_block_table \<Rightarrow> llama_seq_id \<Rightarrow> u32 \<Rightarrow> u32 \<Rightarrow> llama_block_allocator
      \<Rightarrow> failure + (llama_block_table \<times> llama_block_allocator)" where
  "remove_blocks_range bd t seq pos_start pos_end alloc =
     (case tables t seq of
        None \<Rightarrow> Inr (t, alloc)
      | Some blocks \<Rightarrow>
          if tbl_block_size t = 0 then Inl Undefined
          else
            let block_start = pos_start div tbl_block_size t;
                block_end = (pos_end + tbl_block_size t - 1) div tbl_block_size t;
                block_end = min block_end (of_nat (length blocks))
            in if block_start \<ge> block_end then Inr (t, alloc)
               else case free_range bd alloc blocks block_start block_end of
                      Inl e \<Rightarrow> Inl e
                    | Inr alloc' \<Rightarrow>
                        Inr (t \<lparr> tables := (tables t)(seq \<mapsto>
                                  take (unat block_start) blocks @ drop (unat block_end) blocks) \<rparr>,
                             alloc'))"

section \<open>llama_layer_window\<close>

datatype llama_layer_tier = LLAMA_TIER_GPU | LLAMA_TIER_CPU | LLAMA_TIER_DISK

datatype llama_layer_transfer_state = LLAMA_XFER_IDLE | LLAMA_XFER_LOADING | LLAMA_XFER_READY

text \<open>
  Modelled from the spec: \<^verbatim>\<open>ggml_tensor\<close> and \<^verbatim>\<open>ggml_nbytes\<close> are declared
  outside these sources. For each tensor the window reads and writes its data address
  and its buffer handle and queries its byte size; \<^verbatim>\<open>ggml_nbytes(t)\<close> does not
  depend on the two fields that are written, and is kept here as the field \<open>nbytes\<close>.
  Pointers are abstract addresses. The tensor nodes live in a store from addresses to
  tensors, so that two pointers to one node alias.
\<close>

type_synonym addr = nat

record ggml_tensor =
  data :: addr
  buffer :: addr
  nbytes :: nat

type_synonym tensor_store = "addr \<rightharpoonup> ggml_tensor"

text \<open>
  Modelled from the spec: \<^verbatim>\<open>llama_layer\<close> is declared outside these sources. It
  is walked by \<^verbatim>\<open>for_each_layer_tensor\<close> as an array of
  \<^verbatim>\<open>LAYER_TENSOR_FIELD_COUNT\<close> tensor pointers, \<^verbatim>\<open>attn_norm\<close> first: the list of
  its pointer fields in declaration order, \<open>None\<close> for \<^verbatim>\<open>nullptr\<close>.
\<close>

type_synonym llama_layer = "addr option list"

record llama_tensor_saved_ptr =
  tensor :: addr
  orig_data :: addr
  orig_buffer :: addr

record llama_layer_window_entry =
  il :: int
  tier :: llama_layer_tier
  xfer_state :: llama_layer_transfer_state
  weight_bytes :: nat
  staging_slot :: int
  saved_ptrs :: "llama_tensor_saved_ptr list"

text \<open>
  Of \<^verbatim>\<open>llama_layer_window\<close> the fields the modelled functions touch. The
  \<^verbatim>\<open>int32_t\<close> and \<^verbatim>\<open>int\<close> fields are integers; where the source computes with
  them, a result outside the 32-bit range is signed overflow.
\<close>

record llama_layer_window =
  n_layer :: int
  n_window :: int
  n_gpu_static :: int
  entries :: "llama_layer_window_entry list"
  active_slot :: int
  staging_gpu_buffer :: "addr \<times> addr"

definition int32_range :: "int \<Rightarrow> bool" where
  "int32_range x \<longleftrightarrow> - (2 ^ 31) \<le> x \<and> x < 2 ^ 31"

text \<open>C++ integer division truncates towards zero.\<close>

definition c_div :: "int \<Rightarrow> int \<Rightarrow> int" where
  "c_div a b = sgn a * sgn b * (\<bar>a\<bar> div \<bar>b\<bar>)"

definition enabled :: "llama_layer_window \<Rightarrow> bool" where
  "enabled w \<longleftrightarrow> n_window w > 0 \<and> n_window w < n_layer w"

definition get_window_range :: "llama_layer_window \<Rightarrow> int \<Rightarrow> failure + (int \<times> int)" where
  "get_window_range w current_il =
     (if \<not> enabled w then Inr (0, n_layer w)
      else
        let half = c_div (n_window w) 2;
            start = current_il - half
        in if \<not> int32_range start then Inl Undefined
           else
             let end_il = start + n_window w
             in if \<not> int32_range end_il then Inl Undefined
                else
                  let (start, end_il) =
                        (if start < 0 then (0, min (n_window w) (n_layer w)) else (start, end_il));
                      (start, end_il) =
                        (if end_il > n_layer w then (max 0 (n_layer w - n_window w), n_layer w)
                         else (start, end_il))
                  in Inr (start, end_il))"

text \<open>
  The body of the lambda of \<^verbatim>\<open>swap_layer_to_gpu\<close>, run by
  \<^verbatim>\<open>for_each_layer_tensor\<close> over the non-null fields in order. The state of the
  loop is the saved list, the tensor store and \<^verbatim>\<open>offset\<close>. A pointer to no tensor
  of the store is a dangling pointer.
\<close>

fun redirect_tensors ::
    "addr \<Rightarrow> addr \<Rightarrow> llama_layer
      \<Rightarrow> llama_tensor_saved_ptr list \<times> tensor_store \<times> nat
      \<Rightarrow> failure + (llama_tensor_saved_ptr list \<times> tensor_store \<times> nat)" where
  "redirect_tensors base buf [] st = Inr st"
| "redirect_tensors base buf (None # rest) st = redirect_tensors base buf rest st"
| "redirect_tensors base buf (Some t # rest) (saved, h, offset) =
     (case h t of
        None \<Rightarrow> Inl Undefined
      | Some T \<Rightarrow>
          redirect_tensors base buf rest
            (saved @ [\<lparr> tensor = t, orig_data = data T, orig_buffer = buffer T \<rparr>],
             h(t \<mapsto> T \<lparr> data := base + offset, buffer := buf \<rparr>),
             offset + nbytes T))"

text \<open>
  \<^verbatim>\<open>ggml_backend_buffer_get_base\<close> belongs to the tensor library: the function
  \<open>get_base\<close> from buffer handles to base addresses is a parameter.
  \<^verbatim>\<open>entries[il]\<close> and \<^verbatim>\<open>staging_gpu_buffer[slot]\<close> are unchecked array reads.
\<close>

definition swap_layer_to_gpu ::
    "(addr \<Rightarrow> addr) \<Rightarrow> llama_layer_window \<Rightarrow> int \<Rightarrow> llama_layer \<Rightarrow> tensor_store
      \<Rightarrow> failure + (llama_layer_window \<times> tensor_store)" where
  "swap_layer_to_gpu get_base w i layer h =
     (if \<not> (0 \<le> i \<and> nat i < length (entries w)) then Inl Undefined
      else
        let entry = entries w ! nat i
        in if tier entry = LLAMA_TIER_GPU then Inr (w, h)
           else if staging_slot entry \<ge> 0 then Inr (w, h)
           else
             let slot = active_slot w
             in if \<not> (0 \<le> slot \<and> slot < 2) then Inl Undefined
                else
                  let buf = (if slot = 0 then fst (staging_gpu_buffer w) else snd (staging_gpu_buffer w));
                      base = get_base buf
                  in case redirect_tensors base buf layer ([], h, 0) of
                       Inl e \<Rightarrow> Inl e
                     | Inr (saved, h', offset) \<Rightarrow>
                         Inr (w \<lparr> entries := (entries w)[nat i :=
                                   entry \<lparr> staging_slot := slot, saved_ptrs := saved \<rparr>] \<rparr>,
                              h'))"

text \<open>The loop \<^verbatim>\<open>for (auto & sp : entry.saved_ptrs)\<close> of \<^verbatim>\<open>swap_layer_to_cpu\<close>.\<close>

fun restore_ptrs :: "llama_tensor_saved_ptr list \<Rightarrow> tensor_store \<Rightarrow> failure + tensor_store" where
  "restore_ptrs [] h = Inr h"
| "restore_ptrs (sp # sps) h =
     (case h (tensor sp) of
        None \<Rightarrow> Inl Undefined
      | Some T \<Rightarrow>
          restore_ptrs sps (h(tensor sp \<mapsto> T \<lparr> data := orig_data sp, buffer := orig_buffer sp \<rparr>)))"

definition swap_layer_to_cpu ::
    "llama_layer_window \<Rightarrow> int \<Rightarrow> llama_layer \<Rightarrow> tensor_store
      \<Rightarrow> failure + (llama_layer_window \<times> tensor_store)" where
  "swap_layer_to_cpu w i layer h =
     (if \<not> (0 \<le> i \<and> nat i < length (entries w)) then Inl Undefined
      else
        let entry = entries w ! nat i
        in if tier entry = LLAMA_TIER_GPU then Inr (w, h)
           else if staging_slot entry < 0 then Inr (w, h)
           else case restore_ptrs (saved_ptrs entry) h of
                  Inl e \<Rightarrow> Inl e
                | Inr h' \<Rightarrow>
                    Inr (w \<lparr> entries := (entries w)[nat i :=
                              entry \<lparr> saved_ptrs := [], staging_slot := - 1 \<rparr>] \<rparr>,
                         h'))"

text \<open>One swap cycle, and \<open>n\<close> of them in a row.\<close>

definition swap_cycle ::
    "(addr \<Rightarrow> addr) \<Rightarrow> int \<Rightarrow> llama_layer \<Rightarrow> llama_layer_window \<times> tensor_store
      \<Rightarrow> failure + (llama_layer_window \<times> tensor_store)" where
  "swap_cycle get_base i layer st =
     (case swap_layer_to_gpu get_base (fst st) i layer (snd st) of
        Inl e \<Rightarrow> Inl e
      | Inr (w1, h1) \<Rightarrow> swap_layer_to_cpu w1 i layer h1)"

fun swap_cycles ::
    "nat \<Rightarrow> (addr \<Rightarrow> addr) \<Rightarrow> int \<Rightarrow> llama_layer \<Rightarrow> llama_layer_window \<times> tensor_store
      \<Rightarrow> failure + (llama_layer_window \<times> tensor_store)" where
  "swap_cycles 0 get_base i layer st = Inr st"
| "swap_cycles (Suc n) get_base i layer st =
     (case swap_cycle get_base i layer st of
        Inl e \<Rightarrow> Inl e
      | Inr st' \<Rightarrow> swap_cycles n get_base i layer st')"

text \<open>
  The tensors \<^verbatim>\<open>for_each_layer_tensor\<close> visits, in order, and the triple
  \<open>{ t, t->data, t->buffer }\<close> that \<open>swap_layer_to_gpu\<close> saves for a tensor
  whose fields it has not yet rewritten.
\<close>

definition layer_tensors :: "llama_layer \<Rightarrow> addr list" where
  "layer_tensors layer = List.map_filter (\<lambda>p. p) layer"

definition saved_ptr_of :: "tensor_store \<Rightarrow> addr \<Rightarrow> llama_tensor_saved_ptr" where
  "saved_ptr_of h t = \<lparr> tensor = t, orig_data = data (the (h t)), orig_buffer = buffer (the (h t)) \<rparr>"

section \<open>The disk tier's CPU cache\<close>

text \<open>
  Modelled from the spec: the declarations of \<^verbatim>\<open>disk_io\<close> and
  \<^verbatim>\<open>cpu_cache_entry\<close> are not in the sources. A cache entry is
  \<open>(layer_index, heap buffer, byte_length, last_access_counter)\<close>. The byte length
  and the budget are taken as \<^verbatim>\<open>size_t\<close> (64-bit words, as the local
  \<^verbatim>\<open>size_t total\<close> they are added to and compared with). \<^verbatim>\<open>last_access\<close> is
  only compared with \<open><\<close>: an integer, whatever its width and signedness.
\<close>

record cpu_cache_entry =
  cache_il :: int
  cache_data :: addr
  entry_size :: "64 word"
  last_access :: int

record disk_io =
  cpu_cache :: "cpu_cache_entry list"
  cpu_cache_budget :: "64 word"

text \<open>
  \<^verbatim>\<open>std::sort\<close> with the comparator \<^verbatim>\<open>a.last_access < b.last_access\<close>. The
  standard promises a permutation of the input in which no element is followed by a
  smaller one; it does not say in which order equal elements come out
  (\<^verbatim>\<open>std::stable_sort\<close> would). The sort is a parameter of \<open>evict_lru\<close>, and
  \<open>std_sort_spec\<close> is what the standard promises of it.
\<close>

definition std_sort_spec :: "(cpu_cache_entry list \<Rightarrow> cpu_cache_entry list) \<Rightarrow> bool" where
  "std_sort_spec srt \<longleftrightarrow>
     (\<forall>xs. mset (srt xs) = mset xs \<and> sorted_wrt (\<lambda>a b. \<not> last_access b < last_access a) (srt xs))"

text \<open>\<^verbatim>\<open>for (const auto & e : cpu_cache) total += e.size;\<close>\<close>

definition cache_total :: "cpu_cache_entry list \<Rightarrow> 64 word" where
  "cache_total cache = foldl (\<lambda>tot e. tot + entry_size e) 0 cache"

text \<open>
  The eviction loop; \<open>tot\<close> is the local \<^verbatim>\<open>total\<close>. Besides the remaining cache it returns the entries it has freed,
  in the order of the \<^verbatim>\<open>::free\<close> calls.
\<close>

fun evict_loop ::
    "64 word \<Rightarrow> 64 word \<Rightarrow> cpu_cache_entry list \<Rightarrow> cpu_cache_entry list
      \<Rightarrow> cpu_cache_entry list \<times> cpu_cache_entry list" where
  "evict_loop budget tot [] freed = (freed, [])"
| "evict_loop budget tot (oldest # rest) freed =
     (if tot > budget then evict_loop budget (tot - entry_size oldest) rest (freed @ [oldest])
      else (freed, oldest # rest))"

definition evict_lru ::
    "(cpu_cache_entry list \<Rightarrow> cpu_cache_entry list) \<Rightarrow> disk_io \<Rightarrow> cpu_cache_entry list \<times> disk_io" where
  "evict_lru srt d =
     (if cpu_cache d = [] then ([], d)
      else
        let sorted_cache = srt (cpu_cache d);
            tot = cache_total sorted_cache;
            (freed, cache') = evict_loop (cpu_cache_budget d) tot sorted_cache []
        in (freed, d \<lparr> cpu_cache := cache' \<rparr>))"

text \<open>
  A sort that meets \<open>std_sort_spec\<close> and keeps equal entries in insertion order: the
  stable insertion sort.
\<close>

definition stable_sort :: "cpu_cache_entry list \<Rightarrow> cpu_cache_entry list" where
  "stable_sort xs = sort_key last_access xs"

section \<open>std::sort as the GNU C++ library implements it\<close>

text \<open>
  \<^verbatim>\<open>std::sort\<close> is library code, outside these sources. What follows is the
  algorithm of the GNU C++ library (libstdc++, \<^verbatim>\<open>bits/stl_algo.h\<close> and
  \<^verbatim>\<open>bits/stl_heap.h\<close>), function by function under the library's names: an
  introsort (median-of-three quicksort down to ranges of at most 16 elements, with a
  heap sort when the depth limit \<open>2 * lg n\<close> is used up), then a final insertion
  sort. The vector is a list, iterators are indices into it, and every function returns
  the vector it has rewritten. \<open>lru_less\<close> is the comparator of \<open>evict_lru\<close>,
  \<^verbatim>\<open>a.last_access < b.last_access\<close>.
\<close>

definition lru_less :: "cpu_cache_entry \<Rightarrow> cpu_cache_entry \<Rightarrow> bool" where
  "lru_less a b \<longleftrightarrow> last_access a < last_access b"

definition iter_swap :: "'a list \<Rightarrow> nat \<Rightarrow> nat \<Rightarrow> 'a list" where
  "iter_swap xs i j = xs[i := xs ! j, j := xs ! i]"

text \<open>\<^verbatim>\<open>std::__lg(n)\<close>: the position of the highest set bit, \<open>\<lfloor>log\<^sub>2 n\<rfloor>\<close>.\<close>

fun lg :: "nat \<Rightarrow> nat" where
  "lg n = (if n < 2 then 0 else Suc (lg (n div 2)))"

declare lg.simps [simp del]

text \<open>
  \<^verbatim>\<open>__unguarded_linear_insert(last, comp)\<close>, with \<open>val = *last\<close>: shifts the elements
  greater than \<open>val\<close> one place up and puts \<open>val\<close> into the gap. The library's loop
  has no bound of its own (it relies on an element not greater than \<open>val\<close> further
  down, which its callers provide); here it stops at index 0 at the latest.
\<close>

fun unguarded_linear_insert ::
    "cpu_cache_entry list \<Rightarrow> cpu_cache_entry \<Rightarrow> nat \<Rightarrow> cpu_cache_entry list" where
  "unguarded_linear_insert xs val 0 = xs[0 := val]"
| "unguarded_linear_insert xs val (Suc n) =
     (if lru_less val (xs ! n) then unguarded_linear_insert (xs[Suc n := xs ! n]) val n
      else xs[Suc n := val])"

text \<open>
  \<^verbatim>\<open>__insertion_sort(first, last, comp)\<close>: an element smaller than \<open>*first\<close> is
  moved to the front with \<^verbatim>\<open>move_backward(first, i, i + 1)\<close>, any other one is
  inserted by \<^verbatim>\<open>__unguarded_linear_insert\<close>. Then
  \<^verbatim>\<open>__unguarded_insertion_sort\<close> and \<^verbatim>\<open>__final_insertion_sort\<close> with the
  threshold \<^verbatim>\<open>_S_threshold = 16\<close>.
\<close>

definition insertion_sort :: "cpu_cache_entry list \<Rightarrow> nat \<Rightarrow> nat \<Rightarrow> cpu_cache_entry list" where
  "insertion_sort xs first lst =
     (if first = lst then xs
      else fold (\<lambda>i xs.
             if lru_less (xs ! i) (xs ! first)
             then take first xs @ xs ! i # take (i - first) (drop first xs) @ drop (Suc i) xs
             else unguarded_linear_insert xs (xs ! i) i)
           [Suc first..<lst] xs)"

definition unguarded_insertion_sort :: "cpu_cache_entry list \<Rightarrow> nat \<Rightarrow> nat \<Rightarrow> cpu_cache_entry list" where
  "unguarded_insertion_sort xs first lst =
     fold (\<lambda>i xs. unguarded_linear_insert xs (xs ! i) i) [first..<lst] xs"

definition final_insertion_sort :: "cpu_cache_entry list \<Rightarrow> nat \<Rightarrow> nat \<Rightarrow> cpu_cache_entry list" where
  "final_insertion_sort xs first lst =
     (if lst - first > 16
      then unguarded_insertion_sort (insertion_sort xs first (first + 16)) (first + 16) lst
      else insertion_sort xs first lst)"

text \<open>\<^verbatim>\<open>__move_median_to_first(result, a, b, c, comp)\<close>.\<close>

definition move_median_to_first ::
    "cpu_cache_entry list \<Rightarrow> nat \<Rightarrow> nat \<Rightarrow> nat \<Rightarrow> nat \<Rightarrow> cpu_cache_entry list" where
  "move_median_to_first xs result a b c =
     (if lru_less (xs ! a) (xs ! b) then
        (if lru_less (xs ! b) (xs ! c) then iter_swap xs result b
         else if lru_less (xs ! a) (xs ! c) then iter_swap xs result c
         else iter_swap xs result a)
      else if lru_less (xs ! a) (xs ! c) then iter_swap xs result a
      else if lru_less (xs ! b) (xs ! c) then iter_swap xs result c
      else iter_swap xs result b)"

text \<open>
  \<^verbatim>\<open>__unguarded_partition(first, last, pivot, comp)\<close>. Its two inner loops,
  \<^verbatim>\<open>while (comp(first, pivot)) ++first\<close> and
  \<^verbatim>\<open>while (comp(pivot, last)) --last\<close>, are \<open>scan_up\<close> and \<open>scan_down\<close>; the
  library leaves them unbounded (the median of three stops them), here they stop at
  the ends of the vector at the latest. The function returns the cut together with the
  vector.
\<close>

function scan_up :: "cpu_cache_entry list \<Rightarrow> nat \<Rightarrow> nat \<Rightarrow> nat" where
  "scan_up xs pivot first =
     (if first < length xs \<and> lru_less (xs ! first) (xs ! pivot) then scan_up xs pivot (Suc first)
      else first)"
  by pat_completeness auto
termination
  by (relation "measure (\<lambda>(xs, pivot, first). length xs - first)") auto

declare scan_up.simps [simp del]

fun scan_down :: "cpu_cache_entry list \<Rightarrow> nat \<Rightarrow> nat \<Rightarrow> nat" where
  "scan_down xs pivot 0 = 0"
| "scan_down xs pivot (Suc n) =
     (if lru_less (xs ! pivot) (xs ! Suc n) then scan_down xs pivot n else Suc n)"

function unguarded_partition ::
    "cpu_cache_entry list \<Rightarrow> nat \<Rightarrow> nat \<Rightarrow> nat \<Rightarrow> nat \<times> cpu_cache_entry list" where
  "unguarded_partition xs first lst pivot =
     (let first' = scan_up xs pivot first;
          lst' = scan_down xs pivot (lst - 1)
      in if \<not> first' < lst' then (first', xs)
         else unguarded_partition (iter_swap xs first' lst') (Suc first') lst' pivot)"
  by pat_completeness auto
termination
proof (relation "measure (\<lambda>(xs, first, lst, pivot). lst - first)")
  show "wf (measure (\<lambda>(xs, first, lst, pivot). lst - first))"
    by simp
next
  fix xs :: "cpu_cache_entry list" and first lst pivot x xa :: nat
  assume x: "x = scan_up xs pivot first" and xa: "xa = scan_down xs pivot (lst - 1)"
    and lt: "\<not> \<not> x < xa"
  have up: "i \<le> scan_up ys p i" for ys p i
  proof (induction ys p i rule: scan_up.induct)
    case (1 ys p i)
    show ?case
    proof (cases "i < length ys \<and> lru_less (ys ! i) (ys ! p)")
      case True
      with 1 have "Suc i \<le> scan_up ys p (Suc i)"
        by simp
      with True show ?thesis
        by (subst scan_up.simps) simp
    next
      case False
      then show ?thesis
        by (subst scan_up.simps) auto
    qed
  qed
  have down: "scan_down ys p n \<le> n" for ys p n
    by (induction n) auto
  have "first \<le> x"
    using x up by simp
  moreover have "xa \<le> lst - 1"
    using xa down by simp
  ultimately have "xa - Suc x < lst - first"
    using lt by linarith
  then show "((iter_swap xs x xa, Suc x, xa, pivot), xs, first, lst, pivot)
      \<in> measure (\<lambda>(xs, first, lst, pivot). lst - first)"
    by simp
qed

declare unguarded_partition.simps [simp del]

text \<open>\<^verbatim>\<open>__unguarded_partition_pivot(first, last, comp)\<close>.\<close>

definition unguarded_partition_pivot ::
    "cpu_cache_entry list \<Rightarrow> nat \<Rightarrow> nat \<Rightarrow> nat \<times> cpu_cache_entry list" where
  "unguarded_partition_pivot xs first lst =
     (let mid = first + (lst - first) div 2;
          xs' = move_median_to_first xs first (first + 1) mid (lst - 1)
      in unguarded_partition xs' (first + 1) lst first)"

text \<open>
  The heap sort of \<^verbatim>\<open>bits/stl_heap.h\<close>: \<^verbatim>\<open>__push_heap\<close>, the loop and the
  body of \<^verbatim>\<open>__adjust_heap\<close> (its second step is taken for an even \<open>len\<close> with
  \<open>secondChild = (len - 2) / 2\<close>; the division is that of signed integers, so the
  test is false for \<open>len < 2\<close>), \<^verbatim>\<open>__pop_heap\<close>, \<^verbatim>\<open>__make_heap\<close>,
  \<^verbatim>\<open>__sort_heap\<close>, and \<^verbatim>\<open>__heap_select\<close> and \<^verbatim>\<open>__partial_sort\<close> of
  \<^verbatim>\<open>bits/stl_algo.h\<close>.
\<close>

function push_heap ::
    "cpu_cache_entry list \<Rightarrow> nat \<Rightarrow> nat \<Rightarrow> nat \<Rightarrow> cpu_cache_entry \<Rightarrow> cpu_cache_entry list" where
  "push_heap xs first hole top_index val =
     (if hole > top_index \<and> lru_less (xs ! (first + (hole - 1) div 2)) val
      then push_heap (xs[first + hole := xs ! (first + (hole - 1) div 2)]) first ((hole - 1) div 2) top_index val
      else xs[first + hole := val])"
  by pat_completeness auto
termination
  by (relation "measure (\<lambda>(xs, first, hole, top_index, val). hole)") auto

declare push_heap.simps [simp del]

function adjust_heap_loop ::
    "cpu_cache_entry list \<Rightarrow> nat \<Rightarrow> nat \<Rightarrow> nat \<Rightarrow> nat \<Rightarrow> cpu_cache_entry list \<times> nat \<times> nat" where
  "adjust_heap_loop xs first hole second len =
     (if second < (len - 1) div 2 then
        (let second' = 2 * (second + 1);
             second' = (if lru_less (xs ! (first + second')) (xs ! (first + (second' - 1)))
                        then second' - 1 else second')
         in adjust_heap_loop (xs[first + hole := xs ! (first + second')]) first second' second' len)
      else (xs, hole, second))"
  by pat_completeness auto
termination
  by (relation "measure (\<lambda>(xs, first, hole, second, len). (len - 1) div 2 - second)") auto

declare adjust_heap_loop.simps [simp del]

definition adjust_heap ::
    "cpu_cache_entry list \<Rightarrow> nat \<Rightarrow> nat \<Rightarrow> nat \<Rightarrow> cpu_cache_entry \<Rightarrow> cpu_cache_entry list" where
  "adjust_heap xs first hole len val =
     (let (xs, hole', second) = adjust_heap_loop xs first hole hole len;
          (xs, hole') =
            (if even len \<and> 2 \<le> len \<and> second = (len - 2) div 2
             then (xs[first + hole' := xs ! (first + (2 * (second + 1) - 1))], 2 * (second + 1) - 1)
             else (xs, hole'))
      in push_heap xs first hole' hole val)"

definition pop_heap :: "cpu_cache_entry list \<Rightarrow> nat \<Rightarrow> nat \<Rightarrow> nat \<Rightarrow> cpu_cache_entry list" where
  "pop_heap xs first lst result =
     (let val = xs ! result
      in adjust_heap (xs[result := xs ! first]) first 0 (lst - first) val)"

definition make_heap :: "cpu_cache_entry list \<Rightarrow> nat \<Rightarrow> nat \<Rightarrow> cpu_cache_entry list" where
  "make_heap xs first lst =
     (if lst - first < 2 then xs
      else fold (\<lambda>parent xs. adjust_heap xs first parent (lst - first) (xs ! (first + parent)))
             (rev [0..<Suc ((lst - first - 2) div 2)]) xs)"

definition sort_heap :: "cpu_cache_entry list \<Rightarrow> nat \<Rightarrow> nat \<Rightarrow> cpu_cache_entry list" where
  "sort_heap xs first lst = fold (\<lambda>l xs. pop_heap xs first l l) (rev [Suc first..<lst]) xs"

definition heap_select :: "cpu_cache_entry list \<Rightarrow> nat \<Rightarrow> nat \<Rightarrow> nat \<Rightarrow> cpu_cache_entry list" where
  "heap_select xs first middle lst =
     fold (\<lambda>i xs. if lru_less (xs ! i) (xs ! first) then pop_heap xs first middle i else xs)
       [middle..<lst] (make_heap xs first middle)"

definition partial_sort :: "cpu_cache_entry list \<Rightarrow> nat \<Rightarrow> nat \<Rightarrow> nat \<Rightarrow> cpu_cache_entry list" where
  "partial_sort xs first middle lst = sort_heap (heap_select xs first middle lst) first middle"

text \<open>
  \<^verbatim>\<open>__introsort_loop(first, last, depth_limit, comp)\<close>: while the range has more
  than 16 elements, sort it by heap sort when the depth limit is used up, else
  partition it, recur on the upper part and go on with the lower part.
  \<^verbatim>\<open>std::sort\<close> (\<^verbatim>\<open>std::__sort\<close>) runs it with the depth limit
  \<open>2 * lg (last - first)\<close> and finishes with the insertion sort.
\<close>

fun introsort_loop :: "cpu_cache_entry list \<Rightarrow> nat \<Rightarrow> nat \<Rightarrow> nat \<Rightarrow> cpu_cache_entry list" where
  "introsort_loop xs first lst 0 =
     (if lst - first > 16 then partial_sort xs first lst lst else xs)"
| "introsort_loop xs first lst (Suc depth_limit) =
     (if lst - first > 16 then
        (let (cut, xs) = unguarded_partition_pivot xs first lst;
             xs = introsort_loop xs cut lst depth_limit
         in introsort_loop xs first cut depth_limit)
      else xs)"

definition std_sort :: "cpu_cache_entry list \<Rightarrow> cpu_cache_entry list" where
  "std_sort xs =
     (if xs = [] then xs
      else final_insertion_sort (introsort_loop xs 0 (length xs) (lg (length xs) * 2)) 0 (length xs))"

text \<open>
  Cache entries that tie: entry \<open>k\<close> is the one inserted in place \<open>k\<close>, each of 10
  bytes in a buffer of its own, all with the same \<open>last_access\<close>.
\<close>

definition tied_entry :: "int \<Rightarrow> cpu_cache_entry" where
  "tied_entry k = \<lparr> cache_il = k, cache_data = nat (4096 * (k + 1)), entry_size = 10, last_access = 5 \<rparr>"

section \<open>The allocator keeps its free-list invariant\<close>

lemma unat_pred: "(i::u32) \<noteq> 0 \<Longrightarrow> unat i = Suc (unat (i - 1))"
  by (simp add: unat_minus_one unat_gt_0)

lemma ctor_loop_eq: "ctor_loop i fl = fl @ map of_nat (rev [0..<unat i])"
proof (induction i fl rule: ctor_loop.induct)
  case (1 i fl)
  show ?case
  proof (cases "0 < i")
    case True
    then have nz: "i \<noteq> 0" by auto
    have u: "unat i = Suc (unat (i - 1))" using nz by (rule unat_pred)
    have "ctor_loop i fl = ctor_loop (i - 1) (fl @ [i - 1])"
      using True by (subst ctor_loop.simps) simp
    also have "\<dots> = (fl @ [i - 1]) @ map of_nat (rev [0..<unat (i - 1)])"
      using 1 True by simp
    also have "\<dots> = fl @ map of_nat (rev [0..<unat i])"
      by (simp add: u)
    finally show ?thesis .
  next
    case False
    then have "i = 0" using word_neq_0_conv [of i] by blast
    then show ?thesis by (subst ctor_loop.simps) simp
  qed
qed

lemma unat_of_nat_u32: "k < unat (n :: u32) \<Longrightarrow> unat (of_nat k :: u32) = k"
proof -
  assume "k < unat n"
  moreover have "unat n < 2 ^ 32" using unsigned_less [of n] by simp
  ultimately have "k < 2 ^ LENGTH(32)" by simp
  then show ?thesis by (simp add: unat_of_nat)
qed

lemma set_ctor_loop: "set (ctor_loop n []) = {b. b < n}"
proof -
  have "of_nat ` {0..<unat n} = {b :: u32. b < n}"
  proof (intro equalityI subsetI)
    fix b :: u32 assume "b \<in> of_nat ` {0..<unat n}"
    then obtain k where k: "k < unat n" "b = of_nat k" by auto
    then have "unat b = k" by (simp add: unat_of_nat_u32)
    with k show "b \<in> {b. b < n}" by (simp add: word_less_nat_alt)
  next
    fix b :: u32 assume "b \<in> {b. b < n}"
    then have "unat b < unat n" by (simp add: word_less_nat_alt)
    moreover have "b = of_nat (unat b)" by simp
    ultimately show "b \<in> of_nat ` {0..<unat n}" by (intro image_eqI [where x = "unat b"]) auto
  qed
  then show ?thesis by (simp add: ctor_loop_eq)
qed

lemma distinct_ctor_loop: "distinct (ctor_loop n [])"
proof -
  have "inj_on (of_nat :: nat \<Rightarrow> u32) {0..<unat n}"
  proof (rule inj_onI)
    fix x y assume "x \<in> {0..<unat n}" "y \<in> {0..<unat n}" "(of_nat x :: u32) = of_nat y"
    then have "x < unat n" "y < unat n" "unat (of_nat x :: u32) = unat (of_nat y :: u32)" by auto
    then show "x = y" by (simp add: unat_of_nat_u32)
  qed
  then show ?thesis by (simp add: ctor_loop_eq distinct_map)
qed

lemma length_ctor_loop: "length (ctor_loop n []) = unat n"
  by (simp add: ctor_loop_eq)

lemma new_inv:
  assumes "llama_block_allocator_new bd tc bs = Inr a"
  shows "alloc_wf a \<and> alloc_inv a"
proof -
  from assms have a: "a = \<lparr> block_size = bs, num_blocks = tc div bs,
      free_list = ctor_loop (tc div bs) [], ref_count = replicate (unat (tc div bs)) 0 \<rparr>"
    by (auto simp: llama_block_allocator_new_def split: if_splits)
  show ?thesis
    by (simp add: a alloc_wf_def alloc_inv_def set_ctor_loop distinct_ctor_loop word_less_nat_alt)
qed

lemma allocate_inv:
  assumes wf: "alloc_wf a" and inv: "alloc_inv a" and ne: "free_list a \<noteq> []"
  shows "\<exists>a'. allocate bd a = Inr (last (free_list a), a') \<and> alloc_wf a' \<and> alloc_inv a'"
proof -
  obtain ys b where fl: "free_list a = ys @ [b]"
    using ne by (metis append_butlast_last_id)
  have b: "b < num_blocks a" using wf fl by (simp add: alloc_wf_def)
  then have ub: "unat b < length (ref_count a)" using wf by (simp add: alloc_wf_def word_less_nat_alt)
  have z: "ref_count a ! unat b = 0" using inv b fl by (simp add: alloc_inv_def)
  have bn: "b \<notin> set ys" using inv fl by (simp add: alloc_inv_def)
  let ?a' = "a \<lparr> free_list := ys, ref_count := (ref_count a)[unat b := 1] \<rparr>"
  have r: "allocate bd a = Inr (b, ?a')"
    using fl ub z by (simp add: allocate_def Let_def)
  have wf': "alloc_wf ?a'" using wf fl by (simp add: alloc_wf_def)
  have inv': "alloc_inv ?a'"
    unfolding alloc_inv_def
  proof (intro conjI allI impI)
    show "distinct (free_list ?a')" using inv fl by (simp add: alloc_inv_def)
  next
    fix c assume c: "c < num_blocks ?a'"
    show "(ref_count ?a' ! unat c = 0) = (c \<in> set (free_list ?a'))"
    proof (cases "c = b")
      case True
      then show ?thesis using ub bn by simp
    next
      case False
      then have "unat c \<noteq> unat b" by (simp add: word_unat_eq_iff)
      then have "ref_count ?a' ! unat c = ref_count a ! unat c" by simp
      moreover have "(ref_count a ! unat c = 0) = (c \<in> set (free_list a))"
        using inv c by (simp add: alloc_inv_def)
      ultimately show ?thesis using False fl by simp
    qed
  qed
  show ?thesis using r wf' inv' fl by auto
qed

lemma free_block_inv:
  assumes wf: "alloc_wf a" and inv: "alloc_inv a" and b: "b < num_blocks a"
    and pos: "ref_count a ! unat b > 0"
  shows "\<exists>a'. free_block bd a b = Inr a' \<and> alloc_wf a' \<and> alloc_inv a'"
proof -
  have ub: "unat b < length (ref_count a)" using wf b by (simp add: alloc_wf_def word_less_nat_alt)
  have nz: "ref_count a ! unat b \<noteq> 0" using pos by auto
  have bn: "b \<notin> set (free_list a)" using inv b nz by (simp add: alloc_inv_def)
  let ?rc = "(ref_count a)[unat b := ref_count a ! unat b - 1]"
  have other: "\<And>c. c < num_blocks a \<Longrightarrow> c \<noteq> b \<Longrightarrow> (?rc ! unat c = 0) = (c \<in> set (free_list a))"
  proof -
    fix c assume c: "c < num_blocks a" "c \<noteq> b"
    then have "unat c \<noteq> unat b" by (simp add: word_unat_eq_iff)
    then have "?rc ! unat c = ref_count a ! unat c" by simp
    then show "(?rc ! unat c = 0) = (c \<in> set (free_list a))"
      using inv c by (simp add: alloc_inv_def)
  qed
  show ?thesis
  proof (cases "ref_count a ! unat b - 1 = 0")
    case True
    let ?a' = "a \<lparr> free_list := free_list a @ [b], ref_count := ?rc \<rparr>"
    have r: "free_block bd a b = Inr ?a'"
      using b ub pos True by (simp add: free_block_def Let_def)
    have "alloc_wf ?a'" using wf b by (simp add: alloc_wf_def)
    moreover have "alloc_inv ?a'"
      unfolding alloc_inv_def
    proof (intro conjI allI impI)
      show "distinct (free_list ?a')" using inv bn by (simp add: alloc_inv_def)
    next
      fix c assume c: "c < num_blocks ?a'"
      show "(ref_count ?a' ! unat c = 0) = (c \<in> set (free_list ?a'))"
      proof (cases "c = b")
        case True
        then show ?thesis using ub \<open>ref_count a ! unat b - 1 = 0\<close> by simp
      next
        case False
        then show ?thesis using other [of c] c by simp
      qed
    qed
    ultimately show ?thesis using r by blast
  next
    case False
    let ?a' = "a \<lparr> ref_count := ?rc \<rparr>"
    have r: "free_block bd a b = Inr ?a'"
      using b ub pos False by (simp add: free_block_def Let_def)
    have "alloc_wf ?a'" using wf by (simp add: alloc_wf_def)
    moreover have "alloc_inv ?a'"
      unfolding alloc_inv_def
    proof (intro conjI allI impI)
      show "distinct (free_list ?a')" using inv by (simp add: alloc_inv_def)
    next
      fix c assume c: "c < num_blocks ?a'"
      show "(ref_count ?a' ! unat c = 0) = (c \<in> set (free_list ?a'))"
      proof (cases "c = b")
        case True
        then show ?thesis using ub False bn by simp
      next
        case False
        then show ?thesis using other [of c] c by simp
      qed
    qed
    ultimately show ?thesis using r by blast
  qed
qed

lemma inc_ref_inv:
  assumes wf: "alloc_wf a" and inv: "alloc_inv a" and b: "b < num_blocks a"
    and pos: "ref_count a ! unat b > 0" and nomax: "ref_count a ! unat b \<noteq> - 1"
  shows "\<exists>a'. inc_ref bd a b = Inr a' \<and> alloc_wf a' \<and> alloc_inv a'"
proof -
  have ub: "unat b < length (ref_count a)" using wf b by (simp add: alloc_wf_def word_less_nat_alt)
  have nz: "ref_count a ! unat b \<noteq> 0" using pos by auto
  have bn: "b \<notin> set (free_list a)" using inv b nz by (simp add: alloc_inv_def)
  have nz': "ref_count a ! unat b + 1 \<noteq> 0"
    using nomax eq_neg_iff_add_eq_0 [of "ref_count a ! unat b" 1] by simp
  let ?rc = "(ref_count a)[unat b := ref_count a ! unat b + 1]"
  let ?a' = "a \<lparr> ref_count := ?rc \<rparr>"
  have r: "inc_ref bd a b = Inr ?a'"
    using b ub pos by (simp add: inc_ref_def)
  have "alloc_wf ?a'" using wf by (simp add: alloc_wf_def)
  moreover have "alloc_inv ?a'"
    unfolding alloc_inv_def
  proof (intro conjI allI impI)
    show "distinct (free_list ?a')" using inv by (simp add: alloc_inv_def)
  next
    fix c assume c: "c < num_blocks ?a'"
    show "(ref_count ?a' ! unat c = 0) = (c \<in> set (free_list ?a'))"
    proof (cases "c = b")
      case True
      then show ?thesis using ub nz' bn by simp
    next
      case False
      then have "unat c \<noteq> unat b" by (simp add: word_unat_eq_iff)
      then have "?rc ! unat c = ref_count a ! unat c" by simp
      then show ?thesis using inv c by (simp add: alloc_inv_def)
    qed
  qed
  ultimately show ?thesis using r by blast
qed

section \<open>Address translation\<close>

text \<open>
  C1. For a sequence of the table and a position \<open>pos \<ge> 0\<close> whose block index
  \<open>pos / block_size\<close> is inside the sequence's block list, \<open>logical_to_physical\<close>
  returns \<open>mapping[seq][pos / block_size] * block_size + pos mod block_size\<close>, in
  either build (the arithmetic is that of \<^verbatim>\<open>uint32_t\<close>). With block size 32 and
  the blocks \<open>[5, 7]\<close> the positions 0, 31, 32 and 50 translate to 160, 191, 224
  and 242.
\<close>

theorem logical_to_physical_correct:
  "(tables t seq = Some blocks \<and> 0 \<le> sint pos \<and> tbl_block_size t \<noteq> 0 \<and>
      unat (pos div tbl_block_size t) < length blocks \<longrightarrow>
    logical_to_physical bd t seq pos =
      Inr (blocks ! unat (pos div tbl_block_size t) * tbl_block_size t + pos mod tbl_block_size t)) \<and>
   logical_to_physical bd \<lparr> tbl_block_size = 32, tables = [s \<mapsto> [5, 7]] \<rparr> s 0 = Inr 160 \<and>
   logical_to_physical bd \<lparr> tbl_block_size = 32, tables = [s \<mapsto> [5, 7]] \<rparr> s 31 = Inr 191 \<and>
   logical_to_physical bd \<lparr> tbl_block_size = 32, tables = [s \<mapsto> [5, 7]] \<rparr> s 32 = Inr 224 \<and>
   logical_to_physical bd \<lparr> tbl_block_size = 32, tables = [s \<mapsto> [5, 7]] \<rparr> s 50 = Inr 242"
  by (simp add: logical_to_physical_def Let_def)

theorem logical_to_physical_correct_witness:
  "tables \<lparr> tbl_block_size = 16, tables = [3 \<mapsto> [9, 4, 6]] \<rparr> 3 = Some [9, 4, 6] \<and>
   0 \<le> sint (40 :: llama_pos) \<and>
   tbl_block_size \<lparr> tbl_block_size = 16, tables = [3 \<mapsto> [9, 4, 6]] \<rparr> \<noteq> 0 \<and>
   unat ((40 :: llama_pos) div 16) < length [9 :: u32, 4, 6] \<and>
   logical_to_physical Release \<lparr> tbl_block_size = 16, tables = [3 \<mapsto> [9, 4, 6]] \<rparr> 3 40 = Inr 104"
  using logical_to_physical_correct
    [of "\<lparr> tbl_block_size = 16, tables = [3 \<mapsto> [9, 4, 6]] \<rparr>" 3 "[9, 4, 6]" 40 Release]
  by simp

text \<open>
  Read as natural numbers, the translated cell is \<open>block * block_size + pos mod block_size\<close>
  as long as that number fits into 32 bits.
\<close>

lemma logical_to_physical_unat:
  assumes "tables t seq = Some blocks" and "0 \<le> sint pos" and "tbl_block_size t \<noteq> 0"
    and "unat (pos div tbl_block_size t) < length blocks"
    and "unat (blocks ! (unat pos div unat (tbl_block_size t))) * unat (tbl_block_size t) +
           unat pos mod unat (tbl_block_size t) < 2 ^ 32"
  shows "\<exists>cell. logical_to_physical bd t seq pos = Inr cell \<and>
           unat cell = unat (blocks ! (unat pos div unat (tbl_block_size t))) * unat (tbl_block_size t) +
                       unat pos mod unat (tbl_block_size t)"
proof -
  let ?bs = "tbl_block_size t"
  let ?b = "blocks ! unat (pos div ?bs)"
  have idx: "unat (pos div ?bs) = unat pos div unat ?bs"
    by (simp add: unat_div)
  have m: "unat (pos mod ?bs) = unat pos mod unat ?bs"
    by (simp add: unat_mod)
  from assms(5) idx have small: "unat ?b * unat ?bs + unat pos mod unat ?bs < 2 ^ 32"
    by simp
  then have "unat ?b * unat ?bs < 2 ^ LENGTH(32)"
    by simp
  then have mul: "unat (?b * ?bs) = unat ?b * unat ?bs"
    by (simp add: unat_mult_lem [THEN iffD1])
  from small mul m have "unat (?b * ?bs) + unat (pos mod ?bs) < 2 ^ LENGTH(32)"
    by simp
  then have "unat (?b * ?bs + pos mod ?bs) = unat (?b * ?bs) + unat (pos mod ?bs)"
    by (simp add: unat_add_lem [THEN iffD1])
  with mul m idx have "unat (?b * ?bs + pos mod ?bs) =
      unat (blocks ! (unat pos div unat ?bs)) * unat ?bs + unat pos mod unat ?bs"
    by simp
  moreover have "logical_to_physical bd t seq pos = Inr (?b * ?bs + pos mod ?bs)"
    using assms(1-4) by (simp add: logical_to_physical_def Let_def)
  ultimately show ?thesis
    by blast
qed

section \<open>Evaluating the invariant and the constructor\<close>

lemma alloc_inv_code:
  "alloc_inv a \<longleftrightarrow>
     distinct (free_list a) \<and>
     list_all (\<lambda>i. (ref_count a ! i = 0) = (of_nat i \<in> set (free_list a))) [0..<unat (num_blocks a)]"
proof -
  have "(\<forall>b. b < num_blocks a \<longrightarrow> (ref_count a ! unat b = 0 \<longleftrightarrow> b \<in> set (free_list a))) \<longleftrightarrow>
        (\<forall>i \<in> set [0..<unat (num_blocks a)]. (ref_count a ! i = 0) = (of_nat i \<in> set (free_list a)))"
  proof
    assume h: "\<forall>b. b < num_blocks a \<longrightarrow> (ref_count a ! unat b = 0 \<longleftrightarrow> b \<in> set (free_list a))"
    show "\<forall>i \<in> set [0..<unat (num_blocks a)]. (ref_count a ! i = 0) = (of_nat i \<in> set (free_list a))"
    proof
      fix i assume "i \<in> set [0..<unat (num_blocks a)]"
      then have i: "i < unat (num_blocks a)" by simp
      have u: "unat (of_nat i :: u32) = i" using i by (rule unat_of_nat_u32)
      then have "(of_nat i :: u32) < num_blocks a" using i by (simp add: word_less_nat_alt)
      with h u show "(ref_count a ! i = 0) = (of_nat i \<in> set (free_list a))" by metis
    qed
  next
    assume h: "\<forall>i \<in> set [0..<unat (num_blocks a)]. (ref_count a ! i = 0) = (of_nat i \<in> set (free_list a))"
    show "\<forall>b. b < num_blocks a \<longrightarrow> (ref_count a ! unat b = 0 \<longleftrightarrow> b \<in> set (free_list a))"
    proof (intro allI impI)
      fix b assume b: "b < num_blocks a"
      then have "unat b < unat (num_blocks a)" by (simp add: word_less_nat_alt)
      then have "unat b \<in> set [0..<unat (num_blocks a)]" by simp
      with h have "(ref_count a ! unat b = 0) = (of_nat (unat b) \<in> set (free_list a))" by blast
      then show "(ref_count a ! unat b = 0) = (b \<in> set (free_list a))" by simp
    qed
  qed
  then show ?thesis unfolding alloc_inv_def list_all_iff by simp
qed

lemma replicate_4: "replicate 4 x = [x, x, x, x]"
  by (simp add: numeral_eq_Suc)

lemma ctor_loop_4: "ctor_loop 4 [] = [3, 2, 1, 0]"
  by (simp add: ctor_loop.simps)

lemma new_128_32:
  "llama_block_allocator_new bd 128 32 =
     Inr \<lparr> block_size = 32, num_blocks = 4, free_list = [3, 2, 1, 0], ref_count = [0, 0, 0, 0] \<rparr>"
  by (simp add: llama_block_allocator_new_def ctor_loop_4 replicate_4)

lemma new_succeeds:
  "blk_size \<noteq> 0 \<Longrightarrow> blk_size \<le> total_cells \<Longrightarrow> \<exists>a. llama_block_allocator_new bd total_cells blk_size = Inr a"
  by (simp add: llama_block_allocator_new_def)

text \<open>
  C2 (amended). The free-list invariant (no block twice in the free list; a block
  \<open>b < num_blocks\<close> is in the free list exactly when \<open>ref_count[b] = 0\<close>) holds
  of every allocator the constructor returns, and the constructor returns one when
  \<open>0 < blk_size \<le> total_cells\<close>. From a state with the invariant, \<open>allocate\<close>
  (free list not empty) and \<open>free_block\<close> (\<open>b < num_blocks\<close>,
  \<open>ref_count[b] > 0\<close>) return a state with the invariant, in either build;
  \<open>inc_ref\<close> does so under the same precondition when moreover \<open>ref_count[b]\<close>
  is not the largest \<^verbatim>\<open>uint32_t\<close>.
\<close>

theorem alloc_inv_preserved:
  "(llama_block_allocator_new bd total_cells blk_size = Inr a0 \<longrightarrow> alloc_wf a0 \<and> alloc_inv a0) \<and>
   (blk_size \<noteq> 0 \<and> blk_size \<le> total_cells \<longrightarrow>
      (\<exists>a. llama_block_allocator_new bd total_cells blk_size = Inr a)) \<and>
   (alloc_wf a \<and> alloc_inv a \<and> free_list a \<noteq> [] \<longrightarrow>
      (\<exists>a'. allocate bd a = Inr (last (free_list a), a') \<and> alloc_wf a' \<and> alloc_inv a')) \<and>
   (alloc_wf a \<and> alloc_inv a \<and> b < num_blocks a \<and> 0 < ref_count a ! unat b \<longrightarrow>
      (\<exists>a'. free_block bd a b = Inr a' \<and> alloc_wf a' \<and> alloc_inv a')) \<and>
   (alloc_wf a \<and> alloc_inv a \<and> b < num_blocks a \<and> 0 < ref_count a ! unat b \<and>
      ref_count a ! unat b \<noteq> - 1 \<longrightarrow>
      (\<exists>a'. inc_ref bd a b = Inr a' \<and> alloc_wf a' \<and> alloc_inv a'))"
proof (intro conjI impI)
  assume "llama_block_allocator_new bd total_cells blk_size = Inr a0"
  then show "alloc_wf a0" "alloc_inv a0"
    using new_inv by blast+
next
  assume "blk_size \<noteq> 0 \<and> blk_size \<le> total_cells"
  then show "\<exists>a. llama_block_allocator_new bd total_cells blk_size = Inr a"
    using new_succeeds by blast
next
  assume "alloc_wf a \<and> alloc_inv a \<and> free_list a \<noteq> []"
  then show "\<exists>a'. allocate bd a = Inr (last (free_list a), a') \<and> alloc_wf a' \<and> alloc_inv a'"
    using allocate_inv by blast
next
  assume "alloc_wf a \<and> alloc_inv a \<and> b < num_blocks a \<and> 0 < ref_count a ! unat b"
  then show "\<exists>a'. free_block bd a b = Inr a' \<and> alloc_wf a' \<and> alloc_inv a'"
    using free_block_inv by blast
next
  assume "alloc_wf a \<and> alloc_inv a \<and> b < num_blocks a \<and> 0 < ref_count a ! unat b \<and>
      ref_count a ! unat b \<noteq> - 1"
  then show "\<exists>a'. inc_ref bd a b = Inr a' \<and> alloc_wf a' \<and> alloc_inv a'"
    using inc_ref_inv by blast
qed

theorem alloc_inv_preserved_witness:
  "llama_block_allocator_new Debug 128 32 =
     Inr \<lparr> block_size = 32, num_blocks = 4, free_list = [3, 2, 1, 0], ref_count = [0, 0, 0, 0] \<rparr> \<and>
   alloc_wf \<lparr> block_size = 32, num_blocks = 4, free_list = [3, 2, 1, 0], ref_count = [0, 0, 0, 0] \<rparr> \<and>
   alloc_inv \<lparr> block_size = 32, num_blocks = 4, free_list = [3, 2, 1, 0], ref_count = [0, 0, 0, 0] \<rparr> \<and>
   (32 :: u32) \<noteq> 0 \<and> (32 :: u32) \<le> 128 \<and>
   alloc_wf \<lparr> block_size = 32, num_blocks = 2, free_list = [1], ref_count = [3, 0] \<rparr> \<and>
   alloc_inv \<lparr> block_size = 32, num_blocks = 2, free_list = [1], ref_count = [3, 0] \<rparr> \<and>
   free_list \<lparr> block_size = 32, num_blocks = 2, free_list = [1], ref_count = [3, 0] \<rparr> \<noteq> [] \<and>
   (0 :: u32) < num_blocks \<lparr> block_size = 32, num_blocks = 2, free_list = [1], ref_count = [3, 0] \<rparr> \<and>
   0 < ref_count \<lparr> block_size = 32, num_blocks = 2, free_list = [1], ref_count = [3, 0] \<rparr> ! unat (0 :: u32) \<and>
   ref_count \<lparr> block_size = 32, num_blocks = 2, free_list = [1], ref_count = [3, 0] \<rparr> ! unat (0 :: u32) \<noteq> - 1 \<and>
   (\<exists>a'. allocate Debug \<lparr> block_size = 32, num_blocks = 2, free_list = [1], ref_count = [3, 0] \<rparr> = Inr (1, a') \<and>
         alloc_wf a' \<and> alloc_inv a') \<and>
   (\<exists>a'. free_block Debug \<lparr> block_size = 32, num_blocks = 2, free_list = [1], ref_count = [3, 0] \<rparr> 0 = Inr a' \<and>
         alloc_wf a' \<and> alloc_inv a') \<and>
   (\<exists>a'. inc_ref Debug \<lparr> block_size = 32, num_blocks = 2, free_list = [1], ref_count = [3, 0] \<rparr> 0 = Inr a' \<and>
         alloc_wf a' \<and> alloc_inv a')"
proof -
  let ?init = "\<lparr> block_size = 32, num_blocks = 4, free_list = [3, 2, 1, 0], ref_count = [0 :: u32, 0, 0, 0] \<rparr>"
  let ?st = "\<lparr> block_size = 32, num_blocks = 2, free_list = [1], ref_count = [3 :: u32, 0] \<rparr>"
  have n: "llama_block_allocator_new Debug 128 32 = Inr ?init"
    by (rule new_128_32)
  have wf: "alloc_wf ?st"
    by (simp add: alloc_wf_def)
  have inv: "alloc_inv ?st"
    by (simp add: alloc_inv_code upt_rec)
  have pre: "free_list ?st \<noteq> []" "(0 :: u32) < num_blocks ?st" "0 < ref_count ?st ! unat (0 :: u32)"
    "ref_count ?st ! unat (0 :: u32) \<noteq> - 1"
    by simp_all
  note inst = alloc_inv_preserved [of Debug 128 32 "?init" "?st" 0]
  show ?thesis
    using inst n wf inv pre by simp
qed

text \<open>
  Under the precondition of \<open>inc_ref\<close> alone the invariant is not preserved: at
  \<open>ref_count[b] = 4294967295\<close> the increment wraps to zero while \<open>b\<close> is not in
  the free list.
\<close>

theorem alloc_inv_inc_ref_counterexample:
  "alloc_wf \<lparr> block_size = 32, num_blocks = 1, free_list = [], ref_count = [4294967295] \<rparr> \<and>
   alloc_inv \<lparr> block_size = 32, num_blocks = 1, free_list = [], ref_count = [4294967295] \<rparr> \<and>
   (0 :: u32) < num_blocks \<lparr> block_size = 32, num_blocks = 1, free_list = [], ref_count = [4294967295] \<rparr> \<and>
   0 < ref_count \<lparr> block_size = 32, num_blocks = 1, free_list = [], ref_count = [4294967295] \<rparr> ! unat (0 :: u32) \<and>
   inc_ref Debug \<lparr> block_size = 32, num_blocks = 1, free_list = [], ref_count = [4294967295] \<rparr> 0 =
     Inr \<lparr> block_size = 32, num_blocks = 1, free_list = [], ref_count = [0] \<rparr> \<and>
   inc_ref Release \<lparr> block_size = 32, num_blocks = 1, free_list = [], ref_count = [4294967295] \<rparr> 0 =
     Inr \<lparr> block_size = 32, num_blocks = 1, free_list = [], ref_count = [0] \<rparr> \<and>
   \<not> alloc_inv \<lparr> block_size = 32, num_blocks = 1, free_list = [], ref_count = [0] \<rparr>"
  by (simp add: alloc_wf_def alloc_inv_code inc_ref_def)

section \<open>The free list is a stack; the contract of free_block and inc_ref\<close>

text \<open>
  C3. The free list is a stack. An allocator constructed with \<open>(128, 32)\<close> has 4 free
  blocks; four calls of \<open>allocate\<close> return 0, 1, 2, 3 in that order; after
  \<open>free_block(2)\<close> the next \<open>allocate\<close> returns 2. In any state (with one reference
  count per block) in which \<open>allocate\<close> returns a block \<open>b\<close>, freeing \<open>b\<close> succeeds,
  brings its count to zero, and the next \<open>allocate\<close> returns \<open>b\<close> again.
\<close>

theorem allocator_lifo:
  "llama_block_allocator_new bd 128 32 =
     Inr \<lparr> block_size = 32, num_blocks = 4, free_list = [3, 2, 1, 0], ref_count = [0, 0, 0, 0] \<rparr> \<and>
   num_free \<lparr> block_size = 32, num_blocks = 4, free_list = [3, 2, 1, 0], ref_count = [0, 0, 0, 0] \<rparr> = 4 \<and>
   allocate bd \<lparr> block_size = 32, num_blocks = 4, free_list = [3, 2, 1, 0], ref_count = [0, 0, 0, 0] \<rparr> =
     Inr (0, \<lparr> block_size = 32, num_blocks = 4, free_list = [3, 2, 1], ref_count = [1, 0, 0, 0] \<rparr>) \<and>
   allocate bd \<lparr> block_size = 32, num_blocks = 4, free_list = [3, 2, 1], ref_count = [1, 0, 0, 0] \<rparr> =
     Inr (1, \<lparr> block_size = 32, num_blocks = 4, free_list = [3, 2], ref_count = [1, 1, 0, 0] \<rparr>) \<and>
   allocate bd \<lparr> block_size = 32, num_blocks = 4, free_list = [3, 2], ref_count = [1, 1, 0, 0] \<rparr> =
     Inr (2, \<lparr> block_size = 32, num_blocks = 4, free_list = [3], ref_count = [1, 1, 1, 0] \<rparr>) \<and>
   allocate bd \<lparr> block_size = 32, num_blocks = 4, free_list = [3], ref_count = [1, 1, 1, 0] \<rparr> =
     Inr (3, \<lparr> block_size = 32, num_blocks = 4, free_list = [], ref_count = [1, 1, 1, 1] \<rparr>) \<and>
   free_block bd \<lparr> block_size = 32, num_blocks = 4, free_list = [], ref_count = [1, 1, 1, 1] \<rparr> 2 =
     Inr \<lparr> block_size = 32, num_blocks = 4, free_list = [2], ref_count = [1, 1, 0, 1] \<rparr> \<and>
   allocate bd \<lparr> block_size = 32, num_blocks = 4, free_list = [2], ref_count = [1, 1, 0, 1] \<rparr> =
     Inr (2, \<lparr> block_size = 32, num_blocks = 4, free_list = [], ref_count = [1, 1, 1, 1] \<rparr>) \<and>
   (allocate bd a = Inr (b, a1) \<and> length (ref_count a) = unat (num_blocks a) \<longrightarrow>
      (\<exists>a2. free_block bd a1 b = Inr a2 \<and> ref_count a2 ! unat b = 0 \<and> allocate bd a2 = Inr (b, a1)))"
proof -
  have general: "\<exists>a2. free_block bd a1 b = Inr a2 \<and> ref_count a2 ! unat b = 0 \<and> allocate bd a2 = Inr (b, a1)"
    if al: "allocate bd a = Inr (b, a1)" and len: "length (ref_count a) = unat (num_blocks a)"
  proof -
    from al have ne: "free_list a \<noteq> []" and b: "b = last (free_list a)"
      and ub: "unat b < length (ref_count a)"
      and a1: "a1 = a \<lparr> free_list := butlast (free_list a), ref_count := (ref_count a)[unat b := 1] \<rparr>"
      by (auto simp: allocate_def Let_def split: if_splits)
    have bn: "b < num_blocks a"
      using ub len by (simp add: word_less_nat_alt)
    let ?a2 = "a \<lparr> free_list := butlast (free_list a) @ [b], ref_count := (ref_count a)[unat b := 0] \<rparr>"
    have "free_block bd a1 b = Inr ?a2"
      using bn ub by (simp add: free_block_def a1)
    moreover have "ref_count ?a2 ! unat b = 0"
      using ub by simp
    moreover have "allocate bd ?a2 = Inr (b, a1)"
      using ub by (simp add: allocate_def a1)
    ultimately show ?thesis
      by blast
  qed
  have scenario:
    "num_free \<lparr> block_size = 32, num_blocks = 4, free_list = [3, 2, 1, 0], ref_count = [0, 0, 0, 0] \<rparr> = 4"
    "allocate bd \<lparr> block_size = 32, num_blocks = 4, free_list = [3, 2, 1, 0], ref_count = [0, 0, 0, 0] \<rparr> =
       Inr (0, \<lparr> block_size = 32, num_blocks = 4, free_list = [3, 2, 1], ref_count = [1, 0, 0, 0] \<rparr>)"
    "allocate bd \<lparr> block_size = 32, num_blocks = 4, free_list = [3, 2, 1], ref_count = [1, 0, 0, 0] \<rparr> =
       Inr (1, \<lparr> block_size = 32, num_blocks = 4, free_list = [3, 2], ref_count = [1, 1, 0, 0] \<rparr>)"
    "allocate bd \<lparr> block_size = 32, num_blocks = 4, free_list = [3, 2], ref_count = [1, 1, 0, 0] \<rparr> =
       Inr (2, \<lparr> block_size = 32, num_blocks = 4, free_list = [3], ref_count = [1, 1, 1, 0] \<rparr>)"
    "allocate bd \<lparr> block_size = 32, num_blocks = 4, free_list = [3], ref_count = [1, 1, 1, 0] \<rparr> =
       Inr (3, \<lparr> block_size = 32, num_blocks = 4, free_list = [], ref_count = [1, 1, 1, 1] \<rparr>)"
    "free_block bd \<lparr> block_size = 32, num_blocks = 4, free_list = [], ref_count = [1, 1, 1, 1] \<rparr> 2 =
       Inr \<lparr> block_size = 32, num_blocks = 4, free_list = [2], ref_count = [1, 1, 0, 1] \<rparr>"
    "allocate bd \<lparr> block_size = 32, num_blocks = 4, free_list = [2], ref_count = [1, 1, 0, 1] \<rparr> =
       Inr (2, \<lparr> block_size = 32, num_blocks = 4, free_list = [], ref_count = [1, 1, 1, 1] \<rparr>)"
    by (simp_all add: allocate_def free_block_def num_free_def)
  show ?thesis
    using new_128_32 [of bd] scenario general by blast
qed

theorem allocator_lifo_witness:
  "allocate Release \<lparr> block_size = 32, num_blocks = 2, free_list = [1], ref_count = [3, 0] \<rparr> =
     Inr (1, \<lparr> block_size = 32, num_blocks = 2, free_list = [], ref_count = [3, 1] \<rparr>) \<and>
   length (ref_count \<lparr> block_size = 32, num_blocks = 2, free_list = [1], ref_count = [3, 0] \<rparr>) =
     unat (num_blocks \<lparr> block_size = 32, num_blocks = 2, free_list = [1], ref_count = [3, 0] \<rparr>) \<and>
   (\<exists>a2. free_block Release \<lparr> block_size = 32, num_blocks = 2, free_list = [], ref_count = [3, 1] \<rparr> 1 = Inr a2 \<and>
         ref_count a2 ! unat (1 :: u32) = 0 \<and>
         allocate Release a2 =
           Inr (1, \<lparr> block_size = 32, num_blocks = 2, free_list = [], ref_count = [3, 1] \<rparr>))"
proof -
  let ?st = "\<lparr> block_size = 32, num_blocks = 2, free_list = [1], ref_count = [3 :: u32, 0] \<rparr>"
  let ?st1 = "\<lparr> block_size = 32, num_blocks = 2, free_list = [], ref_count = [3 :: u32, 1] \<rparr>"
  have al: "allocate Release ?st = Inr (1, ?st1)"
    by (simp add: allocate_def)
  have len: "length (ref_count ?st) = unat (num_blocks ?st)"
    by simp
  from allocator_lifo [of Release "?st" 1 "?st1"] al len show ?thesis
    by simp
qed

text \<open>
  C9 (amended). In a debug build \<open>free_block(b)\<close> and \<open>inc_ref(b)\<close> stop on a failed
  assertion whenever \<open>b \<ge> num_blocks\<close> or \<open>ref_count[b] = 0\<close> on entry. Under the
  precondition \<open>b < num_blocks\<close> and \<open>ref_count[b] > 0\<close> they succeed in either
  build: \<open>free_block\<close> decrements the count and pushes \<open>b\<close> onto the free list exactly
  when the count reaches zero, \<open>inc_ref\<close> increments it. In a release build the
  assertions are compiled away and nothing is reported: on a block \<open>b < num_blocks\<close>
  with \<open>ref_count[b] = 0\<close> both return normally, \<open>free_block\<close> with the count
  wrapped to \<open>2^32 - 1\<close> and \<open>inc_ref\<close> with the count 1.
\<close>

theorem free_block_inc_ref_contract:
  "(length (ref_count a) = unat (num_blocks a) \<and> (\<not> b < num_blocks a \<or> ref_count a ! unat b = 0) \<longrightarrow>
      free_block Debug a b = Inl AssertFail \<and> inc_ref Debug a b = Inl AssertFail) \<and>
   (length (ref_count a) = unat (num_blocks a) \<and> b < num_blocks a \<and> 0 < ref_count a ! unat b \<longrightarrow>
      free_block bd a b =
        Inr (a \<lparr> free_list := (if ref_count a ! unat b - 1 = 0 then free_list a @ [b] else free_list a),
                 ref_count := (ref_count a)[unat b := ref_count a ! unat b - 1] \<rparr>) \<and>
      inc_ref bd a b = Inr (a \<lparr> ref_count := (ref_count a)[unat b := ref_count a ! unat b + 1] \<rparr>)) \<and>
   (length (ref_count a) = unat (num_blocks a) \<and> b < num_blocks a \<and> ref_count a ! unat b = 0 \<longrightarrow>
      free_block Release a b = Inr (a \<lparr> ref_count := (ref_count a)[unat b := - 1] \<rparr>) \<and>
      inc_ref Release a b = Inr (a \<lparr> ref_count := (ref_count a)[unat b := 1] \<rparr>))"
proof (intro conjI impI)
  assume h: "length (ref_count a) = unat (num_blocks a) \<and> b < num_blocks a \<and> ref_count a ! unat b = 0"
  then have ub: "unat b < length (ref_count a)"
    by (simp add: word_less_nat_alt)
  show "free_block Release a b = Inr (a \<lparr> ref_count := (ref_count a)[unat b := - 1] \<rparr>)"
    using h ub by (simp add: free_block_def Let_def)
  show "inc_ref Release a b = Inr (a \<lparr> ref_count := (ref_count a)[unat b := 1] \<rparr>)"
    using h ub by (simp add: inc_ref_def)
next
  assume h: "length (ref_count a) = unat (num_blocks a) \<and> (\<not> b < num_blocks a \<or> ref_count a ! unat b = 0)"
  then have "b < num_blocks a \<Longrightarrow> unat b < length (ref_count a)"
    by (simp add: word_less_nat_alt)
  with h show "free_block Debug a b = Inl AssertFail" "inc_ref Debug a b = Inl AssertFail"
    by (auto simp: free_block_def inc_ref_def)
next
  assume h: "length (ref_count a) = unat (num_blocks a) \<and> b < num_blocks a \<and> 0 < ref_count a ! unat b"
  then have ub: "unat b < length (ref_count a)"
    by (simp add: word_less_nat_alt)
  show "free_block bd a b =
        Inr (a \<lparr> free_list := (if ref_count a ! unat b - 1 = 0 then free_list a @ [b] else free_list a),
                 ref_count := (ref_count a)[unat b := ref_count a ! unat b - 1] \<rparr>)"
    using h ub by (simp add: free_block_def Let_def)
  show "inc_ref bd a b = Inr (a \<lparr> ref_count := (ref_count a)[unat b := ref_count a ! unat b + 1] \<rparr>)"
    using h ub by (simp add: inc_ref_def)
qed

theorem free_block_inc_ref_contract_witness:
  "length (ref_count \<lparr> block_size = 32, num_blocks = 2, free_list = [1], ref_count = [1, 0] \<rparr>) =
     unat (num_blocks \<lparr> block_size = 32, num_blocks = 2, free_list = [1], ref_count = [1, 0] \<rparr>) \<and>
   ref_count \<lparr> block_size = 32, num_blocks = 2, free_list = [1], ref_count = [1, 0] \<rparr> ! unat (1 :: u32) = 0 \<and>
   free_block Debug \<lparr> block_size = 32, num_blocks = 2, free_list = [1], ref_count = [1, 0] \<rparr> 1 = Inl AssertFail \<and>
   inc_ref Debug \<lparr> block_size = 32, num_blocks = 2, free_list = [1], ref_count = [1, 0] \<rparr> 1 = Inl AssertFail \<and>
   (0 :: u32) < num_blocks \<lparr> block_size = 32, num_blocks = 2, free_list = [1], ref_count = [1, 0] \<rparr> \<and>
   0 < ref_count \<lparr> block_size = 32, num_blocks = 2, free_list = [1], ref_count = [1, 0] \<rparr> ! unat (0 :: u32) \<and>
   free_block Release \<lparr> block_size = 32, num_blocks = 2, free_list = [1], ref_count = [1, 0] \<rparr> 0 =
     Inr \<lparr> block_size = 32, num_blocks = 2, free_list = [1, 0], ref_count = [0, 0] \<rparr> \<and>
   inc_ref Release \<lparr> block_size = 32, num_blocks = 2, free_list = [1], ref_count = [1, 0] \<rparr> 0 =
     Inr \<lparr> block_size = 32, num_blocks = 2, free_list = [1], ref_count = [2, 0] \<rparr>"
proof -
  let ?st = "\<lparr> block_size = 32, num_blocks = 2, free_list = [1], ref_count = [1 :: u32, 0] \<rparr>"
  have len: "length (ref_count ?st) = unat (num_blocks ?st)"
    by simp
  have z: "ref_count ?st ! unat (1 :: u32) = 0"
    by simp
  have p: "(0 :: u32) < num_blocks ?st" "0 < ref_count ?st ! unat (0 :: u32)"
    by simp_all
  from free_block_inc_ref_contract [of "?st" 1 Debug] len z
  have d: "free_block Debug ?st 1 = Inl AssertFail \<and> inc_ref Debug ?st 1 = Inl AssertFail"
    by blast
  from free_block_inc_ref_contract [of "?st" 0 Release] len p
  have r: "free_block Release ?st 0 =
        Inr (?st \<lparr> free_list := (if ref_count ?st ! unat (0 :: u32) - 1 = 0 then free_list ?st @ [0] else free_list ?st),
                 ref_count := (ref_count ?st)[unat (0 :: u32) := ref_count ?st ! unat (0 :: u32) - 1] \<rparr>) \<and>
      inc_ref Release ?st 0 = Inr (?st \<lparr> ref_count := (ref_count ?st)[unat (0 :: u32) := ref_count ?st ! unat (0 :: u32) + 1] \<rparr>)"
    by blast
  from d r len z p show ?thesis
    by simp
qed

text \<open>
  In a release build the assertions are compiled away: on a free block (count zero)
  \<open>free_block\<close> and \<open>inc_ref\<close> return normally and change the count, to
  \<open>4294967295\<close> and to \<open>1\<close>, with the block still in the free list.
\<close>

theorem release_contract_counterexample:
  "ref_count \<lparr> block_size = 32, num_blocks = 1, free_list = [0], ref_count = [0] \<rparr> ! unat (0 :: u32) = 0 \<and>
   free_block Release \<lparr> block_size = 32, num_blocks = 1, free_list = [0], ref_count = [0] \<rparr> 0 =
     Inr \<lparr> block_size = 32, num_blocks = 1, free_list = [0], ref_count = [4294967295] \<rparr> \<and>
   inc_ref Release \<lparr> block_size = 32, num_blocks = 1, free_list = [0], ref_count = [0] \<rparr> 0 =
     Inr \<lparr> block_size = 32, num_blocks = 1, free_list = [0], ref_count = [1] \<rparr>"
  by (simp add: free_block_def inc_ref_def)

section \<open>Sharing a sequence\<close>


















section \<open>Removing a range of blocks\<close>

text \<open>
  The context-shift scenario: with block size 32 and the blocks \<open>[b0, b1, b2, b3]\<close>
  (here 0, 1, 2, 3, each with one reference), removing \<open>[32, 96)\<close> leaves
  \<open>[b0, b3]\<close> and puts \<open>b1\<close> and \<open>b2\<close> onto the free list.
\<close>

lemma remove_blocks_range_scenario:
  "remove_blocks_range bd \<lparr> tbl_block_size = 32, tables = [s \<mapsto> [0, 1, 2, 3]] \<rparr> s 32 96
     \<lparr> block_size = 32, num_blocks = 8, free_list = [7, 6, 5, 4], ref_count = [1, 1, 1, 1, 0, 0, 0, 0] \<rparr> =
   Inr (\<lparr> tbl_block_size = 32, tables = [s \<mapsto> [0, 3]] \<rparr>,
        \<lparr> block_size = 32, num_blocks = 8, free_list = [7, 6, 5, 4, 1, 2], ref_count = [1, 0, 0, 1, 0, 0, 0, 0] \<rparr>)"
  by (simp add: remove_blocks_range_def free_range.simps free_block_def Let_def word_le_nat_alt word_less_nat_alt)

lemma unat_succ_u32:
  fixes i e :: u32
  assumes "i < e"
  shows "unat (i + 1) = unat i + 1"
proof -
  have "unat i < unat e" using assms by (simp add: word_less_nat_alt)
  moreover have "unat e < 2 ^ 32" using unsigned_less [of e] by simp
  ultimately have "unat i + unat (1 :: u32) < 2 ^ LENGTH(32)" by simp
  then show ?thesis by (simp add: unat_add_lem [THEN iffD1])
qed

lemma free_range_eq:
  "unat e \<le> length blocks \<Longrightarrow>
   free_range bd a blocks i e = free_all bd a (take (unat e - unat i) (drop (unat i) blocks))"
proof (induction bd a blocks i e rule: free_range.induct)
  case (1 bd a blocks i e)
  show ?case
  proof (cases "i < e")
    case True
    then have lt: "unat i < unat e" by (simp add: word_less_nat_alt)
    with "1.prems" have inr: "unat i < length blocks" by simp
    have suc: "unat (i + 1) = Suc (unat i)" using unat_succ_u32 [OF True] by simp
    have slice: "take (unat e - unat i) (drop (unat i) blocks) =
                 blocks ! unat i # take (unat e - Suc (unat i)) (drop (Suc (unat i)) blocks)"
    proof -
      have "drop (unat i) blocks = blocks ! unat i # drop (Suc (unat i)) blocks"
        using inr by (simp add: Cons_nth_drop_Suc)
      moreover have "unat e - unat i = Suc (unat e - Suc (unat i))" using lt by simp
      ultimately show ?thesis by simp
    qed
    show ?thesis
    proof (cases "free_block bd a (blocks ! unat i)")
      case (Inl x)
      then show ?thesis
        using True inr slice by (subst free_range.simps) simp
    next
      case (Inr a')
      have "free_range bd a' blocks (i + 1) e =
            free_all bd a' (take (unat e - unat (i + 1)) (drop (unat (i + 1)) blocks))"
        using "1.IH" [OF True _ Inr] inr "1.prems" by simp
      then show ?thesis
        using True inr slice Inr suc by (subst free_range.simps) simp
    qed
  next
    case False
    then have "unat e \<le> unat i" by (simp add: word_less_nat_alt)
    then show ?thesis
      using False by (subst free_range.simps) simp
  qed
qed

text \<open>
  Without wrap-around (\<open>pos_end + block_size - 1 < 2^32\<close>, fewer than \<open>2^32\<close> blocks)
  \<open>remove_blocks_range\<close> frees the blocks with logical indices from
  \<open>\<lfloor>pos_start / block_size\<rfloor>\<close> up to, not including, \<open>\<lceil>pos_end / block_size\<rceil>\<close>
  clamped to the length, in ascending order, and removes them from the list.
\<close>

lemma remove_blocks_range_no_wrap:
  fixes t :: llama_block_table and pos_start pos_end :: u32 and blocks :: "u32 list"
  assumes seq: "tables t seq = Some blocks" and bs: "tbl_block_size t \<noteq> 0"
    and nowrap: "unat pos_end + unat (tbl_block_size t) - 1 < 2 ^ 32"
    and len: "length blocks < 2 ^ 32"
  defines "s \<equiv> unat pos_start div unat (tbl_block_size t)"
    and "e \<equiv> min ((unat pos_end + unat (tbl_block_size t) - 1) div unat (tbl_block_size t)) (length blocks)"
  shows "remove_blocks_range bd t seq pos_start pos_end a =
           (if s \<ge> e then Inr (t, a)
            else case free_all bd a (take (e - s) (drop s blocks)) of
                   Inl x \<Rightarrow> Inl x
                 | Inr a' \<Rightarrow> Inr (t \<lparr> tables := (tables t)(seq \<mapsto> take s blocks @ drop e blocks) \<rparr>, a'))"
proof -
  let ?bs = "tbl_block_size t"
  have bs1: "unat ?bs \<ge> 1" using bs by (simp add: Suc_le_eq unat_gt_0)
  have u1: "unat (?bs - 1) = unat ?bs - 1" using bs by (simp add: unat_minus_one)
  have "unat pos_end + unat (?bs - 1) < 2 ^ LENGTH(32)"
    using nowrap bs1 u1 by simp
  then have A: "unat (pos_end + (?bs - 1)) = unat pos_end + unat (?bs - 1)"
    by (simp add: unat_add_lem [THEN iffD1])
  have ue: "unat (pos_end + ?bs - 1) = unat pos_end + unat ?bs - 1"
  proof -
    have "pos_end + ?bs - 1 = pos_end + (?bs - 1)"
      by (simp add: add_diff_eq)
    then have "unat (pos_end + ?bs - 1) = unat (pos_end + (?bs - 1))"
      by (rule arg_cong)
    also have "\<dots> = unat pos_end + unat (?bs - 1)"
      by (rule A)
    also have "\<dots> = unat pos_end + unat ?bs - 1"
      using u1 bs1 by simp
    finally show ?thesis .
  qed
  have ulen: "unat (of_nat (length blocks) :: u32) = length blocks"
    using len by (simp add: unat_of_nat)
  have us: "unat (pos_start div ?bs) = s"
    by (simp add: s_def unat_div)
  have ue': "unat (min ((pos_end + ?bs - 1) div ?bs) (of_nat (length blocks))) = e"
    by (simp add: e_def min_def word_le_nat_alt unat_div ue ulen)
  have cmp: "(min ((pos_end + ?bs - 1) div ?bs) (of_nat (length blocks)) \<le> pos_start div ?bs) = (e \<le> s)"
    by (simp add: word_le_nat_alt us ue')
  have ele: "e \<le> length blocks" by (simp add: e_def)
  show ?thesis
    using seq bs cmp ele
    by (simp add: remove_blocks_range_def Let_def free_range_eq us ue' split: sum.splits)
qed

text \<open>
  C5. \<open>remove_blocks_range\<close> is to free the blocks with logical indices in
  \<open>[\<lfloor>pos_start / block_size\<rfloor>, \<lceil>pos_end / block_size\<rceil>)\<close> clamped to
  the length of the sequence. The source rounds up with
  \<^verbatim>\<open>(pos_end + block_size - 1) / block_size\<close> in \<^verbatim>\<open>uint32_t\<close>, and the sum wraps
  around for \<open>pos_end > 2^32 - block_size\<close>. At block size 32, four blocks and the
  range \<open>[0, 4294967295)\<close>, which covers all four blocks, the sum is 30, the
  rounded quotient 0, and the call returns with no block freed and the sequence
  unchanged.
\<close>

theorem remove_blocks_range_wraps:
  "remove_blocks_range bd \<lparr> tbl_block_size = 32, tables = [s \<mapsto> [0, 1, 2, 3]] \<rparr> s 0 4294967295
     \<lparr> block_size = 32, num_blocks = 8, free_list = [7, 6, 5, 4], ref_count = [1, 1, 1, 1, 0, 0, 0, 0] \<rparr> =
   Inr (\<lparr> tbl_block_size = 32, tables = [s \<mapsto> [0, 1, 2, 3]] \<rparr>,
        \<lparr> block_size = 32, num_blocks = 8, free_list = [7, 6, 5, 4], ref_count = [1, 1, 1, 1, 0, 0, 0, 0] \<rparr>)"
  by (simp add: remove_blocks_range_def Let_def)

section \<open>The window range\<close>

lemma c_div_2_nonneg: "0 \<le> a \<Longrightarrow> c_div a 2 = a div 2"
  by (cases "a = 0") (simp_all add: c_div_def)

lemma get_window_range_enabled:
  assumes en: "enabled w"
    and r1: "int32_range (c - n_window w div 2)"
    and r2: "int32_range (c - n_window w div 2 + n_window w)"
  shows "get_window_range w c =
           Inr (if c - n_window w div 2 < 0 then (0, n_window w)
                else if c - n_window w div 2 + n_window w > n_layer w then (n_layer w - n_window w, n_layer w)
                else (c - n_window w div 2, c - n_window w div 2 + n_window w))"
proof -
  from en have w: "0 < n_window w" "n_window w < n_layer w"
    by (simp_all add: enabled_def)
  then have h: "c_div (n_window w) 2 = n_window w div 2"
    by (simp add: c_div_2_nonneg)
  show ?thesis
    using en r1 r2 w by (simp add: get_window_range_def h Let_def)
qed

text \<open>
  C7. With windowing disabled \<open>get_window_range\<close> returns \<open>[0, n_layer)\<close>. With
  windowing enabled (\<open>0 < n_window < n_layer\<close>) and no signed overflow in
  \<open>current_il - n_window / 2\<close> and in the sum with \<open>n_window\<close>, it returns a
  half-open interval \<open>[start, end)\<close> of exactly \<open>n_window\<close> layers inside
  \<open>[0, n_layer)\<close>: the interval \<open>[current_il - n_window / 2, current_il - n_window / 2 + n_window)\<close>
  centred on \<open>current_il\<close> when that lies inside, moved to start at 0 when it
  would start below 0, and moved to end at \<open>n_layer\<close> when it would end above; a layer
  index \<open>current_il\<close> of the model is always inside the interval. With 40 layers and
  a window of 8 the results for 20, 2 and 39 are \<open>[16, 24)\<close>, \<open>[0, 8)\<close> and
  \<open>[32, 40)\<close>.
\<close>

theorem get_window_range_correct:
  "(\<not> enabled w \<longrightarrow> get_window_range w c = Inr (0, n_layer w)) \<and>
   (enabled w \<and> int32_range (c - n_window w div 2) \<and>
      int32_range (c - n_window w div 2 + n_window w) \<longrightarrow>
      (\<exists>s e. get_window_range w c = Inr (s, e) \<and>
         0 \<le> s \<and> s < e \<and> e \<le> n_layer w \<and> e - s = n_window w \<and>
         (0 \<le> c - n_window w div 2 \<and> c - n_window w div 2 + n_window w \<le> n_layer w \<longrightarrow>
            s = c - n_window w div 2) \<and>
         (c - n_window w div 2 < 0 \<longrightarrow> s = 0) \<and>
         (n_layer w < c - n_window w div 2 + n_window w \<longrightarrow> e = n_layer w) \<and>
         (0 \<le> c \<and> c < n_layer w \<longrightarrow> s \<le> c \<and> c < e))) \<and>
   get_window_range (w \<lparr> n_layer := 40, n_window := 8 \<rparr>) 20 = Inr (16, 24) \<and>
   get_window_range (w \<lparr> n_layer := 40, n_window := 8 \<rparr>) 2 = Inr (0, 8) \<and>
   get_window_range (w \<lparr> n_layer := 40, n_window := 8 \<rparr>) 39 = Inr (32, 40)"
proof (intro conjI impI)
  assume "\<not> enabled w"
  then show "get_window_range w c = Inr (0, n_layer w)"
    by (simp add: get_window_range_def)
next
  assume h: "enabled w \<and> int32_range (c - n_window w div 2) \<and>
      int32_range (c - n_window w div 2 + n_window w)"
  then have w: "0 < n_window w" "n_window w < n_layer w"
    by (simp_all add: enabled_def)
  from h have eq: "get_window_range w c =
           Inr (if c - n_window w div 2 < 0 then (0, n_window w)
                else if c - n_window w div 2 + n_window w > n_layer w then (n_layer w - n_window w, n_layer w)
                else (c - n_window w div 2, c - n_window w div 2 + n_window w))"
    using get_window_range_enabled by blast
  consider (low) "c - n_window w div 2 < 0"
    | (high) "0 \<le> c - n_window w div 2" "n_layer w < c - n_window w div 2 + n_window w"
    | (mid) "0 \<le> c - n_window w div 2" "c - n_window w div 2 + n_window w \<le> n_layer w"
    by linarith
  then show "\<exists>s e. get_window_range w c = Inr (s, e) \<and>
         0 \<le> s \<and> s < e \<and> e \<le> n_layer w \<and> e - s = n_window w \<and>
         (0 \<le> c - n_window w div 2 \<and> c - n_window w div 2 + n_window w \<le> n_layer w \<longrightarrow>
            s = c - n_window w div 2) \<and>
         (c - n_window w div 2 < 0 \<longrightarrow> s = 0) \<and>
         (n_layer w < c - n_window w div 2 + n_window w \<longrightarrow> e = n_layer w) \<and>
         (0 \<le> c \<and> c < n_layer w \<longrightarrow> s \<le> c \<and> c < e)"
  proof cases
    case low
    have "get_window_range w c = Inr (0, n_window w)"
      using eq low by simp
    moreover have "c < n_window w"
      using low w by linarith
    ultimately show ?thesis
      using low w by auto
  next
    case high
    have "get_window_range w c = Inr (n_layer w - n_window w, n_layer w)"
      using eq high by simp
    moreover have "n_layer w - n_window w \<le> c"
      using high w by linarith
    ultimately show ?thesis
      using high w by auto
  next
    case mid
    have "get_window_range w c = Inr (c - n_window w div 2, c - n_window w div 2 + n_window w)"
      using eq mid by simp
    moreover have "c - n_window w div 2 \<le> c" "c < c - n_window w div 2 + n_window w"
      using w by linarith+
    ultimately show ?thesis
      using mid w by auto
  qed
next
  show "get_window_range (w \<lparr> n_layer := 40, n_window := 8 \<rparr>) 20 = Inr (16, 24)"
    "get_window_range (w \<lparr> n_layer := 40, n_window := 8 \<rparr>) 2 = Inr (0, 8)"
    "get_window_range (w \<lparr> n_layer := 40, n_window := 8 \<rparr>) 39 = Inr (32, 40)"
    by (simp_all add: get_window_range_def enabled_def c_div_def int32_range_def Let_def)
qed

theorem get_window_range_correct_witness:
  "\<not> enabled \<lparr> n_layer = 40, n_window = 0, n_gpu_static = 0, entries = [], active_slot = 0, staging_gpu_buffer = (0, 0) \<rparr> \<and>
   get_window_range \<lparr> n_layer = 40, n_window = 0, n_gpu_static = 0, entries = [], active_slot = 0, staging_gpu_buffer = (0, 0) \<rparr> 5 = Inr (0, 40) \<and>
   enabled \<lparr> n_layer = 40, n_window = 8, n_gpu_static = 0, entries = [], active_slot = 0, staging_gpu_buffer = (0, 0) \<rparr> \<and>
   int32_range (39 - 8 div 2) \<and> int32_range (39 - 8 div 2 + 8) \<and>
   (40 :: int) < 39 - 8 div 2 + 8 \<and> (0 :: int) \<le> 39 \<and> (39 :: int) < 40 \<and>
   (\<exists>s e. get_window_range \<lparr> n_layer = 40, n_window = 8, n_gpu_static = 0, entries = [], active_slot = 0, staging_gpu_buffer = (0, 0) \<rparr> 39 = Inr (s, e) \<and>
      0 \<le> s \<and> s < e \<and> e \<le> 40 \<and> e - s = 8 \<and> e = 40 \<and> s \<le> 39 \<and> 39 < e)"
proof -
  let ?w0 = "\<lparr> n_layer = 40, n_window = 0, n_gpu_static = 0, entries = [], active_slot = 0, staging_gpu_buffer = (0, 0) \<rparr>"
  let ?w1 = "\<lparr> n_layer = 40, n_window = 8, n_gpu_static = 0, entries = [], active_slot = 0, staging_gpu_buffer = (0, 0) \<rparr>"
  have dis: "\<not> enabled ?w0"
    by (simp add: enabled_def)
  have en: "enabled ?w1"
    by (simp add: enabled_def)
  have rng: "int32_range (39 - 8 div 2)" "int32_range (39 - 8 div 2 + 8)"
    by (simp_all add: int32_range_def)
  have ar: "(40 :: int) < 39 - 8 div 2 + 8" "(0 :: int) \<le> 39" "(39 :: int) < 40"
    by simp_all
  from get_window_range_correct [of ?w0 5] dis
  have r0: "get_window_range ?w0 5 = Inr (0, 40)"
    by simp
  from get_window_range_correct [of ?w1 39] en rng
  have "\<exists>s e. get_window_range ?w1 39 = Inr (s, e) \<and>
         0 \<le> s \<and> s < e \<and> e \<le> n_layer ?w1 \<and> e - s = n_window ?w1 \<and>
         (0 \<le> 39 - n_window ?w1 div 2 \<and> 39 - n_window ?w1 div 2 + n_window ?w1 \<le> n_layer ?w1 \<longrightarrow>
            s = 39 - n_window ?w1 div 2) \<and>
         (39 - n_window ?w1 div 2 < 0 \<longrightarrow> s = 0) \<and>
         (n_layer ?w1 < 39 - n_window ?w1 div 2 + n_window ?w1 \<longrightarrow> e = n_layer ?w1) \<and>
         (0 \<le> (39 :: int) \<and> 39 < n_layer ?w1 \<longrightarrow> s \<le> 39 \<and> 39 < e)"
    by simp
  then have r1: "\<exists>s e. get_window_range ?w1 39 = Inr (s, e) \<and>
      0 \<le> s \<and> s < e \<and> e \<le> 40 \<and> e - s = 8 \<and> e = 40 \<and> s \<le> 39 \<and> 39 < e"
    by simp
  from dis r0 en rng ar r1 show ?thesis
    by blast
qed

section \<open>Evicting from the CPU cache\<close>

lemma foldl_total: "foldl (\<lambda>tot e. tot + entry_size e) acc xs = acc + cache_total xs"
  unfolding cache_total_def
proof (induction xs arbitrary: acc)
  case Nil
  then show ?case by simp
next
  case (Cons x xs)
  have a: "foldl (\<lambda>tot e. tot + entry_size e) (acc + entry_size x) xs =
        acc + entry_size x + foldl (\<lambda>tot e. tot + entry_size e) 0 xs"
    by (rule Cons.IH)
  have b: "foldl (\<lambda>tot e. tot + entry_size e) (entry_size x) xs =
        entry_size x + foldl (\<lambda>tot e. tot + entry_size e) 0 xs"
    by (rule Cons.IH)
  show ?case
    using a b by (simp add: add.assoc)
qed

lemma cache_total_Nil: "cache_total [] = 0"
  by (simp add: cache_total_def)

lemma cache_total_Cons: "cache_total (x # xs) = entry_size x + cache_total xs"
  using foldl_total [of "entry_size x" xs] by (simp add: cache_total_def)

lemma evict_loop_spec:
  assumes "evict_loop budget (cache_total xs) xs fr = (fr', rest)"
  shows "\<exists>ev. fr' = fr @ ev \<and> ev @ rest = xs \<and> cache_total rest \<le> budget \<and>
              (\<forall>k < length ev. budget < cache_total (drop k xs))"
  using assms
proof (induction xs arbitrary: fr)
  case Nil
  then show ?case by (simp add: cache_total_Nil)
next
  case (Cons x xs)
  show ?case
  proof (cases "budget < cache_total (x # xs)")
    case True
    have "cache_total (x # xs) - entry_size x = cache_total xs"
      by (simp add: cache_total_Cons)
    with Cons.prems True have "evict_loop budget (cache_total xs) xs (fr @ [x]) = (fr', rest)"
      by simp
    from Cons.IH [OF this] obtain ev where ev: "fr' = (fr @ [x]) @ ev" "ev @ rest = xs"
      "cache_total rest \<le> budget" "\<forall>k < length ev. budget < cache_total (drop k xs)"
      by blast
    have "\<forall>k < length (x # ev). budget < cache_total (drop k (x # xs))"
    proof (intro allI impI)
      fix k assume "k < length (x # ev)"
      then show "budget < cache_total (drop k (x # xs))"
        using True ev(4) by (cases k) simp_all
    qed
    with ev show ?thesis
      by (intro exI [of _ "x # ev"]) simp
  next
    case False
    with Cons.prems have "fr' = fr" "rest = x # xs"
      by simp_all
    with False show ?thesis
      by (intro exI [of _ "[]"]) (simp add: not_less)
  qed
qed

lemma std_sort_spec_Nil: "std_sort_spec srt \<Longrightarrow> srt [] = []"
  by (metis mset_zero_iff std_sort_spec_def)

lemma evict_lru_split:
  assumes spec: "std_sort_spec srt" and r: "evict_lru srt d = (freed, d')"
  shows "freed @ cpu_cache d' = srt (cpu_cache d) \<and>
         d' = d \<lparr> cpu_cache := cpu_cache d' \<rparr> \<and>
         cache_total (cpu_cache d') \<le> cpu_cache_budget d \<and>
         (\<forall>k < length freed. cpu_cache_budget d < cache_total (drop k (srt (cpu_cache d))))"
proof (cases "cpu_cache d = []")
  case True
  with r have "freed = []" "d' = d"
    by (simp_all add: evict_lru_def)
  then show ?thesis
    using True std_sort_spec_Nil [OF spec] by (simp add: cache_total_Nil)
next
  case False
  obtain fr rest where loop:
    "evict_loop (cpu_cache_budget d) (cache_total (srt (cpu_cache d))) (srt (cpu_cache d)) [] = (fr, rest)"
    by (cases "evict_loop (cpu_cache_budget d) (cache_total (srt (cpu_cache d))) (srt (cpu_cache d)) []")
  with r False have e: "freed = fr" "d' = d \<lparr> cpu_cache := rest \<rparr>"
    by (simp_all add: evict_lru_def Let_def)
  from evict_loop_spec [OF loop] e show ?thesis
    by auto
qed

lemma sorted_wrt_not_less:
  "sorted_wrt (\<lambda>a b. \<not> last_access b < last_access a) xs = sorted (map last_access xs)"
  by (simp add: sorted_wrt_map not_less)

lemma stable_sort_spec: "std_sort_spec stable_sort"
  by (simp add: std_sort_spec_def stable_sort_def sorted_wrt_not_less)

lemma unat_cache_total:
  "(\<Sum>e\<leftarrow>xs. unat (entry_size e)) < 2 ^ 64 \<Longrightarrow> unat (cache_total xs) = (\<Sum>e\<leftarrow>xs. unat (entry_size e))"
proof (induction xs)
  case Nil
  then show ?case by (simp add: cache_total_Nil)
next
  case (Cons x xs)
  then have ih: "unat (cache_total xs) = (\<Sum>e\<leftarrow>xs. unat (entry_size e))"
    by simp
  with Cons.prems have "unat (entry_size x) + unat (cache_total xs) < 2 ^ LENGTH(64)"
    by simp
  then have "unat (entry_size x + cache_total xs) = unat (entry_size x) + unat (cache_total xs)"
    by (simp add: unat_add_lem [THEN iffD1])
  with ih show ?case
    by (simp add: cache_total_Cons)
qed

text \<open>
  C8 (amended). For every sort that does what the standard promises of
  \<^verbatim>\<open>std::sort\<close>, \<open>evict_lru\<close> frees a prefix of the sorted cache and keeps the rest:
  the freed entries followed by the kept ones are what the sort has made of the old
  cache, which is the old cache in ascending order of
  \<open>last_access\<close> (so the entries are freed oldest first, and no kept entry is older
  than a freed one); an entry is freed only while the total is above
  \<open>cpu_cache_budget\<close>; and afterwards the total of the kept entries, as computed in
  \<^verbatim>\<open>size_t\<close>, is at most the budget (the total in bytes, when the sizes of the old
  cache sum to less than \<open>2^64\<close>). The order in which entries of equal
  \<open>last_access\<close> are freed is not determined.
\<close>

theorem evict_lru_correct:
  assumes spec: "std_sort_spec srt" and r: "evict_lru srt d = (freed, d')"
  shows "freed @ cpu_cache d' = srt (cpu_cache d) \<and>
         mset (freed @ cpu_cache d') = mset (cpu_cache d) \<and>
         sorted_wrt (\<lambda>a b. last_access a \<le> last_access b) (freed @ cpu_cache d') \<and>
         cpu_cache_budget d' = cpu_cache_budget d \<and>
         cache_total (cpu_cache d') \<le> cpu_cache_budget d' \<and>
         (\<forall>k < length freed. cpu_cache_budget d < cache_total (drop k (freed @ cpu_cache d'))) \<and>
         ((\<Sum>e\<leftarrow>cpu_cache d. unat (entry_size e)) < 2 ^ 64 \<longrightarrow>
            (\<Sum>e\<leftarrow>cpu_cache d'. unat (entry_size e)) \<le> unat (cpu_cache_budget d))"
proof -
  from evict_lru_split [OF spec r] have split: "freed @ cpu_cache d' = srt (cpu_cache d)"
    and d': "d' = d \<lparr> cpu_cache := cpu_cache d' \<rparr>"
    and le: "cache_total (cpu_cache d') \<le> cpu_cache_budget d"
    and only: "\<forall>k < length freed. cpu_cache_budget d < cache_total (drop k (srt (cpu_cache d)))"
    by blast+
  from spec have ms: "mset (srt (cpu_cache d)) = mset (cpu_cache d)"
    and so: "sorted_wrt (\<lambda>a b. \<not> last_access b < last_access a) (srt (cpu_cache d))"
    by (simp_all add: std_sort_spec_def)
  have bud: "cpu_cache_budget d' = cpu_cache_budget d"
    by (subst d') simp
  have m: "mset (freed @ cpu_cache d') = mset (cpu_cache d)"
    using split ms by simp
  have s: "sorted_wrt (\<lambda>a b. last_access a \<le> last_access b) (freed @ cpu_cache d')"
    using split so by (simp add: not_less)
  have bytes: "(\<Sum>e\<leftarrow>cpu_cache d'. unat (entry_size e)) \<le> unat (cpu_cache_budget d)"
    if small: "(\<Sum>e\<leftarrow>cpu_cache d. unat (entry_size e)) < 2 ^ 64"
  proof -
    have "mset (map (\<lambda>e. unat (entry_size e)) (freed @ cpu_cache d')) =
          mset (map (\<lambda>e. unat (entry_size e)) (cpu_cache d))"
      using m by (metis mset_map)
    then have "sum_list (map (\<lambda>e. unat (entry_size e)) (freed @ cpu_cache d')) =
               sum_list (map (\<lambda>e. unat (entry_size e)) (cpu_cache d))"
      by (metis sum_mset_sum_list)
    then have "(\<Sum>e\<leftarrow>cpu_cache d'. unat (entry_size e)) \<le> (\<Sum>e\<leftarrow>cpu_cache d. unat (entry_size e))"
      by simp
    with small have "(\<Sum>e\<leftarrow>cpu_cache d'. unat (entry_size e)) < 2 ^ 64"
      by simp
    then have "unat (cache_total (cpu_cache d')) = (\<Sum>e\<leftarrow>cpu_cache d'. unat (entry_size e))"
      by (rule unat_cache_total)
    with le show ?thesis
      by (simp add: word_le_nat_alt)
  qed
  from m s bud le only split bytes show ?thesis
    by simp
qed

lemma evict_lru_stable_example:
  "evict_lru stable_sort
     \<lparr> cpu_cache = [\<lparr> cache_il = 3, cache_data = 300, entry_size = 40, last_access = 9 \<rparr>,
                    \<lparr> cache_il = 1, cache_data = 100, entry_size = 30, last_access = 2 \<rparr>,
                    \<lparr> cache_il = 2, cache_data = 200, entry_size = 50, last_access = 7 \<rparr>],
       cpu_cache_budget = 60 \<rparr> =
   ([\<lparr> cache_il = 1, cache_data = 100, entry_size = 30, last_access = 2 \<rparr>,
     \<lparr> cache_il = 2, cache_data = 200, entry_size = 50, last_access = 7 \<rparr>],
    \<lparr> cpu_cache = [\<lparr> cache_il = 3, cache_data = 300, entry_size = 40, last_access = 9 \<rparr>],
      cpu_cache_budget = 60 \<rparr>)"
  by (simp add: evict_lru_def stable_sort_def cache_total_def)

theorem evict_lru_correct_witness:
  "std_sort_spec stable_sort \<and>
   evict_lru stable_sort
     \<lparr> cpu_cache = [\<lparr> cache_il = 3, cache_data = 300, entry_size = 40, last_access = 9 \<rparr>,
                    \<lparr> cache_il = 1, cache_data = 100, entry_size = 30, last_access = 2 \<rparr>,
                    \<lparr> cache_il = 2, cache_data = 200, entry_size = 50, last_access = 7 \<rparr>],
       cpu_cache_budget = 60 \<rparr> =
   ([\<lparr> cache_il = 1, cache_data = 100, entry_size = 30, last_access = 2 \<rparr>,
     \<lparr> cache_il = 2, cache_data = 200, entry_size = 50, last_access = 7 \<rparr>],
    \<lparr> cpu_cache = [\<lparr> cache_il = 3, cache_data = 300, entry_size = 40, last_access = 9 \<rparr>],
      cpu_cache_budget = 60 \<rparr>) \<and>
   cache_total [\<lparr> cache_il = 3, cache_data = 300, entry_size = 40, last_access = 9 \<rparr>] \<le> 60 \<and>
   (\<Sum>e\<leftarrow>[\<lparr> cache_il = 3, cache_data = 300, entry_size = 40, last_access = 9 \<rparr>,
           \<lparr> cache_il = 1, cache_data = 100, entry_size = 30, last_access = 2 \<rparr>,
           \<lparr> cache_il = 2, cache_data = 200, entry_size = 50, last_access = 7 \<rparr>]. unat (entry_size e)) < 2 ^ 64 \<and>
   (\<Sum>e\<leftarrow>[\<lparr> cache_il = 3, cache_data = 300, entry_size = 40, last_access = 9 \<rparr>]. unat (entry_size e))
     \<le> unat (60 :: 64 word)"
proof -
  let ?e1 = "\<lparr> cache_il = 1, cache_data = 100, entry_size = 30, last_access = 2 \<rparr>"
  let ?e2 = "\<lparr> cache_il = 2, cache_data = 200, entry_size = 50, last_access = 7 \<rparr>"
  let ?e3 = "\<lparr> cache_il = 3, cache_data = 300, entry_size = 40, last_access = 9 \<rparr>"
  let ?d = "\<lparr> cpu_cache = [?e3, ?e1, ?e2], cpu_cache_budget = 60 \<rparr>"
  let ?d' = "\<lparr> cpu_cache = [?e3], cpu_cache_budget = 60 \<rparr>"
  have r: "evict_lru stable_sort ?d = ([?e1, ?e2], ?d')"
    by (rule evict_lru_stable_example)
  have small: "(\<Sum>e\<leftarrow>cpu_cache ?d. unat (entry_size e)) < 2 ^ 64"
    by simp
  note inst = evict_lru_correct [OF stable_sort_spec r]
  from inst have t: "cache_total (cpu_cache ?d') \<le> cpu_cache_budget ?d'"
    by blast
  from inst small have b: "(\<Sum>e\<leftarrow>cpu_cache ?d'. unat (entry_size e)) \<le> unat (cpu_cache_budget ?d)"
    by blast
  from stable_sort_spec r t small b show ?thesis
    by simp
qed

text \<open>
  The sort of the GNU C++ library meets \<open>std_sort_spec\<close>. Every function of it
  rearranges the vector (it keeps the length and the multiset of the entries), and the
  final insertion sort puts any vector in order: each entry is moved down past the
  entries greater than it, in a prefix that is in order already.
\<close>

lemma fold_invariant:
  assumes "P s" and "\<And>x s. x \<in> set l \<Longrightarrow> P s \<Longrightarrow> P (f x s)"
  shows "P (fold f l s)"
  using assms by (induction l arbitrary: s) auto

lemma mset_move:
  assumes "h < length xs" and "p < length xs"
  shows "mset (xs[h := xs ! p, p := v]) = mset (xs[h := v])"
proof (cases "p = h")
  case True
  then show ?thesis by simp
next
  case False
  let ?ys = "xs[h := v]"
  have "xs[h := xs ! p, p := v] = ?ys[h := ?ys ! p, p := ?ys ! h]"
    using assms False by simp
  moreover have "mset (?ys[h := ?ys ! p, p := ?ys ! h]) = mset ?ys"
    using assms by (intro mset_swap) simp_all
  ultimately show ?thesis by simp
qed

lemma iter_swap_length [simp]: "length (iter_swap xs i j) = length xs"
  by (simp add: iter_swap_def)

lemma iter_swap_mset: "i < length xs \<Longrightarrow> j < length xs \<Longrightarrow> mset (iter_swap xs i j) = mset xs"
  unfolding iter_swap_def by (rule mset_swap)

lemma unguarded_linear_insert_props:
  assumes "n < length xs"
  shows "length (unguarded_linear_insert xs val n) = length xs \<and>
         drop (Suc n) (unguarded_linear_insert xs val n) = drop (Suc n) xs \<and>
         mset (take (Suc n) (unguarded_linear_insert xs val n)) = add_mset val (mset (take n xs)) \<and>
         (sorted (map last_access (take n xs)) \<longrightarrow>
            sorted (map last_access (take (Suc n) (unguarded_linear_insert xs val n))))"
  using assms
proof (induction n arbitrary: xs)
  case 0
  then show ?case by (cases xs) simp_all
next
  case (Suc n)
  have tk: "take (Suc n) xs = take n xs @ [xs ! n]"
    using Suc.prems by (simp add: take_Suc_conv_app_nth)
  show ?case
  proof (cases "lru_less val (xs ! n)")
    case True
    let ?xs' = "xs[Suc n := xs ! n]"
    let ?R = "unguarded_linear_insert ?xs' val n"
    have R: "unguarded_linear_insert xs val (Suc n) = ?R"
      using True by simp
    have n: "n < length ?xs'"
      using Suc.prems by simp
    note ih = Suc.IH [OF n]
    have len: "length ?R = length xs"
      using ih by simp
    have "drop (Suc n) ?xs' = xs ! n # drop (Suc (Suc n)) xs"
      using Suc.prems by (simp add: drop_update_swap Cons_nth_drop_Suc [symmetric])
    with ih have dr: "drop (Suc n) ?R = xs ! n # drop (Suc (Suc n)) xs"
      by simp
    then have nth: "?R ! Suc n = xs ! n"
      by (rule nth_via_drop)
    have "drop (Suc (Suc n)) ?R = tl (drop (Suc n) ?R)"
      by (simp add: drop_Suc tl_drop)
    with dr have dr2: "drop (Suc (Suc n)) ?R = drop (Suc (Suc n)) xs"
      by simp
    have tkR: "take (Suc (Suc n)) ?R = take (Suc n) ?R @ [xs ! n]"
      using Suc.prems len nth by (simp add: take_Suc_conv_app_nth)
    have ms: "mset (take (Suc n) ?R) = add_mset val (mset (take n xs))"
      using ih by simp
    have ms2: "mset (take (Suc (Suc n)) ?R) = add_mset val (mset (take (Suc n) xs))"
      using ms tkR tk by simp
    have so: "sorted (map last_access (take (Suc (Suc n)) ?R))"
      if s: "sorted (map last_access (take (Suc n) xs))"
    proof -
      from s tk have s1: "sorted (map last_access (take n xs))"
        and le: "\<forall>y \<in> set (take n xs). last_access y \<le> last_access (xs ! n)"
        by (simp_all add: sorted_append)
      from s1 ih have s2: "sorted (map last_access (take (Suc n) ?R))"
        by simp
      have "set (take (Suc n) ?R) = insert val (set (take n xs))"
        using ms by (metis set_mset_add_mset_insert set_mset_mset)
      with le True have "\<forall>y \<in> set (take (Suc n) ?R). last_access y \<le> last_access (xs ! n)"
        by (auto simp: lru_less_def)
      with s2 show ?thesis
        by (simp add: tkR sorted_append)
    qed
    show ?thesis
      unfolding R using len dr2 ms2 so by blast
  next
    case False
    let ?R = "xs[Suc n := val]"
    have R: "unguarded_linear_insert xs val (Suc n) = ?R"
      using False by simp
    have tkR: "take (Suc (Suc n)) ?R = take (Suc n) xs @ [val]"
      using Suc.prems by (simp add: take_Suc_conv_app_nth)
    have so: "sorted (map last_access (take (Suc (Suc n)) ?R))"
      if s: "sorted (map last_access (take (Suc n) xs))"
    proof -
      from s tk have le: "\<forall>y \<in> set (take n xs). last_access y \<le> last_access (xs ! n)"
        by (simp add: sorted_append)
      with False have "\<forall>y \<in> set (take (Suc n) xs). last_access y \<le> last_access val"
        unfolding tk by (auto simp: lru_less_def)
      with s show ?thesis
        by (simp add: tkR sorted_append)
    qed
    show ?thesis
      unfolding R using Suc.prems tkR so by simp
  qed
qed

lemma unguarded_step:
  assumes i: "i < length xs" and s: "sorted (map last_access (take i xs))"
  shows "length (unguarded_linear_insert xs (xs ! i) i) = length xs \<and>
         mset (unguarded_linear_insert xs (xs ! i) i) = mset xs \<and>
         sorted (map last_access (take (Suc i) (unguarded_linear_insert xs (xs ! i) i)))"
proof -
  let ?R = "unguarded_linear_insert xs (xs ! i) i"
  note p = unguarded_linear_insert_props [OF i, of "xs ! i"]
  have "mset ?R = mset (take (Suc i) ?R) + mset (drop (Suc i) ?R)"
    by (metis append_take_drop_id mset_append)
  also have "\<dots> = add_mset (xs ! i) (mset (take i xs)) + mset (drop (Suc i) xs)"
    using p by simp
  also have "\<dots> = mset (take i xs @ xs ! i # drop (Suc i) xs)"
    by simp
  also have "\<dots> = mset xs"
    using id_take_nth_drop [OF i] by simp
  finally show ?thesis
    using p s by simp
qed

lemma guarded_step:
  assumes i: "i < length xs" and i0: "0 < i" and s: "sorted (map last_access (take i xs))"
    and lt: "lru_less (xs ! i) (xs ! 0)"
  shows "length (xs ! i # take i xs @ drop (Suc i) xs) = length xs \<and>
         mset (xs ! i # take i xs @ drop (Suc i) xs) = mset xs \<and>
         sorted (map last_access (take (Suc i) (xs ! i # take i xs @ drop (Suc i) xs)))"
proof -
  have "mset (xs ! i # take i xs @ drop (Suc i) xs) = mset (take i xs @ xs ! i # drop (Suc i) xs)"
    by simp
  also have "\<dots> = mset xs"
    using id_take_nth_drop [OF i] by simp
  finally have ms: "mset (xs ! i # take i xs @ drop (Suc i) xs) = mset xs" .
  have hd: "take i xs = xs ! 0 # tl (take i xs)"
    using i i0 by (cases xs; cases i) simp_all
  with s have "\<forall>y \<in> set (take i xs). last_access (xs ! 0) \<le> last_access y"
    by (metis (no_types, lifting) list.simps(9) list.set_intros(1) order_refl set_ConsD sorted_simps(2) list.set_map imageI)
  with lt have "\<forall>y \<in> set (take i xs). last_access (xs ! i) \<le> last_access y"
    by (auto simp: lru_less_def)
  with s have "sorted (map last_access (xs ! i # take i xs))"
    by simp
  moreover have "take (Suc i) (xs ! i # take i xs @ drop (Suc i) xs) = xs ! i # take i xs"
    using i by simp
  ultimately show ?thesis
    using ms i by simp
qed

lemma fold_upt_sorted:
  assumes step: "\<And>i xs. a \<le> i \<Longrightarrow> i < b \<Longrightarrow> length xs = L \<Longrightarrow> mset xs = M \<Longrightarrow>
        sorted (map last_access (take i xs)) \<Longrightarrow>
        length (f i xs) = L \<and> mset (f i xs) = M \<and> sorted (map last_access (take (Suc i) (f i xs)))"
    and ab: "a \<le> b" and l: "length xs = L" and m: "mset xs = M"
    and s: "sorted (map last_access (take a xs))"
  shows "length (fold f [a..<b] xs) = L \<and> mset (fold f [a..<b] xs) = M \<and>
         sorted (map last_access (take b (fold f [a..<b] xs)))"
  using step ab
proof (induction b)
  case 0
  then show ?case using l m s by simp
next
  case (Suc b)
  show ?case
  proof (cases "a \<le> b")
    case True
    have ih: "length (fold f [a..<b] xs) = L \<and> mset (fold f [a..<b] xs) = M \<and>
         sorted (map last_access (take b (fold f [a..<b] xs)))"
      using Suc.IH [OF _ True] Suc.prems(1) by (simp add: less_Suc_eq)
    have "fold f [a..<Suc b] xs = f b (fold f [a..<b] xs)"
      using True by simp
    with Suc.prems(1) [OF True _ _ _ _, of "fold f [a..<b] xs"] ih show ?thesis
      by simp
  next
    case False
    with Suc.prems have "a = Suc b" by simp
    then show ?thesis using l m s by simp
  qed
qed

lemma final_insertion_sort_sorts:
  assumes "xs \<noteq> []"
  shows "length (final_insertion_sort xs 0 (length xs)) = length xs \<and>
         mset (final_insertion_sort xs 0 (length xs)) = mset xs \<and>
         sorted (map last_access (final_insertion_sort xs 0 (length xs)))"
proof -
  let ?g = "\<lambda>i xs. if lru_less (xs ! i) (xs ! 0)
             then take 0 xs @ xs ! i # take (i - 0) (drop 0 xs) @ drop (Suc i) xs
             else unguarded_linear_insert xs (xs ! i) i"
  let ?u = "\<lambda>i xs. unguarded_linear_insert xs (xs ! i) i"
  let ?L = "length xs" and ?M = "mset xs"
  have one: "sorted (map last_access (take (Suc 0) xs))"
    using assms by (cases xs) simp_all
  have g: "length (?g i ys) = ?L \<and> mset (?g i ys) = ?M \<and> sorted (map last_access (take (Suc i) (?g i ys)))"
    if "Suc 0 \<le> i" "i < b" "b \<le> ?L" "length ys = ?L" "mset ys = ?M" "sorted (map last_access (take i ys))"
    for i b ys
    using that guarded_step [of i ys] unguarded_step [of i ys] by (cases "lru_less (ys ! i) (ys ! 0)") simp_all
  have u: "length (?u i ys) = ?L \<and> mset (?u i ys) = ?M \<and> sorted (map last_access (take (Suc i) (?u i ys)))"
    if "i < ?L" "length ys = ?L" "mset ys = ?M" "sorted (map last_access (take i ys))"
    for i ys
    using that unguarded_step [of i ys] by simp
  show ?thesis
  proof (cases "16 < length xs")
    case False
    have r: "length (fold ?g [Suc 0..<?L] xs) = ?L \<and> mset (fold ?g [Suc 0..<?L] xs) = ?M \<and>
         sorted (map last_access (take ?L (fold ?g [Suc 0..<?L] xs)))"
      using assms one by (intro fold_upt_sorted g [where b = ?L]) (simp_all add: Suc_le_eq)
    then have "take ?L (fold ?g [Suc 0..<?L] xs) = fold ?g [Suc 0..<?L] xs"
      by (intro take_all) simp
    with r False assms show ?thesis
      by (simp add: final_insertion_sort_def insertion_sort_def)
  next
    case True
    let ?ys = "fold ?g [Suc 0..<16] xs"
    have a: "length ?ys = ?L \<and> mset ?ys = ?M \<and> sorted (map last_access (take 16 ?ys))"
      using True one by (intro fold_upt_sorted g [where b = 16]) simp_all
    have r: "length (fold ?u [16..<?L] ?ys) = ?L \<and> mset (fold ?u [16..<?L] ?ys) = ?M \<and>
         sorted (map last_access (take ?L (fold ?u [16..<?L] ?ys)))"
      using True a by (intro fold_upt_sorted u) simp_all
    then have "take ?L (fold ?u [16..<?L] ?ys) = fold ?u [16..<?L] ?ys"
      by (intro take_all) simp
    with r True show ?thesis
      by (simp add: final_insertion_sort_def insertion_sort_def unguarded_insertion_sort_def)
  qed
qed

text \<open>
  The partition and the heap sort keep the entries. In \<^verbatim>\<open>__adjust_heap\<close> and
  \<^verbatim>\<open>__push_heap\<close> the vector has a hole whose old content is held aside in
  \<open>value\<close>: moving an entry into the hole and the hole to that entry's place keeps
  the multiset of the vector with \<open>value\<close> in the hole.
\<close>

lemma scan_up_le: "first \<le> length xs \<Longrightarrow> scan_up xs pivot first \<le> length xs"
proof (induction xs pivot first rule: scan_up.induct)
  case (1 xs pivot first)
  show ?case
  proof (cases "first < length xs \<and> lru_less (xs ! first) (xs ! pivot)")
    case True
    with 1 show ?thesis
      by (subst scan_up.simps) simp
  next
    case False
    with 1 show ?thesis
      by (subst scan_up.simps) auto
  qed
qed

lemma scan_up_ge: "first \<le> scan_up xs pivot first"
proof (induction xs pivot first rule: scan_up.induct)
  case (1 xs pivot first)
  show ?case
  proof (cases "first < length xs \<and> lru_less (xs ! first) (xs ! pivot)")
    case True
    with 1 have "Suc first \<le> scan_up xs pivot (Suc first)"
      by simp
    with True show ?thesis
      by (subst scan_up.simps) simp
  next
    case False
    then show ?thesis
      by (subst scan_up.simps) auto
  qed
qed

lemma scan_down_le: "scan_down xs pivot n \<le> n"
  by (induction n) auto

lemma unguarded_partition_props:
  assumes "lst \<le> length xs" and "first \<le> length xs"
  shows "length (snd (unguarded_partition xs first lst pivot)) = length xs \<and>
         mset (snd (unguarded_partition xs first lst pivot)) = mset xs \<and>
         fst (unguarded_partition xs first lst pivot) \<le> length xs"
  using assms
proof (induction xs first lst pivot rule: unguarded_partition.induct)
  case (1 xs first lst pivot)
  let ?f = "scan_up xs pivot first" and ?l = "scan_down xs pivot (lst - 1)"
  show ?case
  proof (cases "?f < ?l")
    case False
    then have "unguarded_partition xs first lst pivot = (?f, xs)"
      by (subst unguarded_partition.simps) (simp add: Let_def)
    then show ?thesis
      using scan_up_le [OF "1.prems"(2)] by simp
  next
    case True
    have l: "?l \<le> lst - 1"
      by (rule scan_down_le)
    with True "1.prems" have ll: "?l < length xs" and fl: "?f < length xs"
      by linarith+
    have eq: "unguarded_partition xs first lst pivot =
        unguarded_partition (iter_swap xs ?f ?l) (Suc ?f) ?l pivot"
      using True by (subst unguarded_partition.simps) (simp add: Let_def)
    have "length (snd (unguarded_partition (iter_swap xs ?f ?l) (Suc ?f) ?l pivot)) = length (iter_swap xs ?f ?l) \<and>
         mset (snd (unguarded_partition (iter_swap xs ?f ?l) (Suc ?f) ?l pivot)) = mset (iter_swap xs ?f ?l) \<and>
         fst (unguarded_partition (iter_swap xs ?f ?l) (Suc ?f) ?l pivot) \<le> length (iter_swap xs ?f ?l)"
      using True ll fl by (intro "1.IH" [OF refl refl]) simp_all
    then show ?thesis
      unfolding eq using ll fl by (simp add: iter_swap_mset)
  qed
qed

lemma move_median_to_first_props:
  assumes "result < length xs" "a < length xs" "b < length xs" "c < length xs"
  shows "length (move_median_to_first xs result a b c) = length xs \<and>
         mset (move_median_to_first xs result a b c) = mset xs"
  using assms by (simp add: move_median_to_first_def iter_swap_mset)

lemma unguarded_partition_pivot_props:
  assumes big: "16 < lst - first" and lst: "lst \<le> length xs"
  shows "length (snd (unguarded_partition_pivot xs first lst)) = length xs \<and>
         mset (snd (unguarded_partition_pivot xs first lst)) = mset xs \<and>
         fst (unguarded_partition_pivot xs first lst) \<le> length xs"
proof -
  let ?ys = "move_median_to_first xs first (first + 1) (first + (lst - first) div 2) (lst - 1)"
  have m: "length ?ys = length xs \<and> mset ?ys = mset xs"
    using big lst by (intro move_median_to_first_props) simp_all
  have "length (snd (unguarded_partition ?ys (first + 1) lst first)) = length ?ys \<and>
         mset (snd (unguarded_partition ?ys (first + 1) lst first)) = mset ?ys \<and>
         fst (unguarded_partition ?ys (first + 1) lst first) \<le> length ?ys"
    using big lst m by (intro unguarded_partition_props) simp_all
  with m show ?thesis
    by (simp add: unguarded_partition_pivot_def Let_def)
qed

lemma push_heap_props:
  assumes "first + hole < length xs"
  shows "length (push_heap xs first hole top_index val) = length xs \<and>
         mset (push_heap xs first hole top_index val) = mset (xs[first + hole := val])"
  using assms
proof (induction xs first hole top_index val rule: push_heap.induct)
  case (1 xs first hole top_index val)
  let ?p = "(hole - 1) div 2"
  show ?case
  proof (cases "hole > top_index \<and> lru_less (xs ! (first + ?p)) val")
    case False
    then have "push_heap xs first hole top_index val = xs[first + hole := val]"
      by (subst push_heap.simps) auto
    then show ?thesis by simp
  next
    case True
    let ?xs' = "xs[first + hole := xs ! (first + ?p)]"
    have eq: "push_heap xs first hole top_index val = push_heap ?xs' first ?p top_index val"
      using True by (subst push_heap.simps) simp
    have p: "first + ?p < length xs"
      using "1.prems" by linarith
    have "length (push_heap ?xs' first ?p top_index val) = length ?xs' \<and>
         mset (push_heap ?xs' first ?p top_index val) = mset (?xs'[first + ?p := val])"
      using True p by (intro "1.IH") simp_all
    then show ?thesis
      unfolding eq using mset_move [OF "1.prems" p] by simp
  qed
qed

lemma adjust_heap_loop_props:
  assumes "hole = second" and "second < len" and "first + len \<le> length xs"
  shows "length (fst (adjust_heap_loop xs first hole second len)) = length xs \<and>
         fst (snd (adjust_heap_loop xs first hole second len)) < len \<and>
         snd (snd (adjust_heap_loop xs first hole second len)) =
           fst (snd (adjust_heap_loop xs first hole second len)) \<and>
         (\<forall>v. mset ((fst (adjust_heap_loop xs first hole second len))
                 [first + fst (snd (adjust_heap_loop xs first hole second len)) := v]) =
              mset (xs[first + hole := v]))"
  using assms
proof (induction xs first hole second len rule: adjust_heap_loop.induct)
  case (1 xs first hole second len)
  show ?case
  proof (cases "second < (len - 1) div 2")
    case False
    then have "adjust_heap_loop xs first hole second len = (xs, hole, second)"
      by (subst adjust_heap_loop.simps) simp
    then show ?thesis
      using "1.prems" by simp
  next
    case True
    define s2 where "s2 = 2 * (second + 1)"
    define s3 where "s3 = (if lru_less (xs ! (first + s2)) (xs ! (first + (s2 - 1))) then s2 - 1 else s2)"
    let ?xs' = "xs[first + hole := xs ! (first + s3)]"
    have eq: "adjust_heap_loop xs first hole second len = adjust_heap_loop ?xs' first s3 s3 len"
      using True by (subst adjust_heap_loop.simps) (simp add: s2_def s3_def Let_def)
    have s3: "s3 < len"
      using True by (simp add: s2_def s3_def) linarith
    have h: "first + hole < length xs" and c: "first + s3 < length xs"
      using "1.prems" s3 by simp_all
    have ih: "length (fst (adjust_heap_loop ?xs' first s3 s3 len)) = length ?xs' \<and>
         fst (snd (adjust_heap_loop ?xs' first s3 s3 len)) < len \<and>
         snd (snd (adjust_heap_loop ?xs' first s3 s3 len)) =
           fst (snd (adjust_heap_loop ?xs' first s3 s3 len)) \<and>
         (\<forall>v. mset ((fst (adjust_heap_loop ?xs' first s3 s3 len))
                 [first + fst (snd (adjust_heap_loop ?xs' first s3 s3 len)) := v]) =
              mset (?xs'[first + s3 := v]))"
      using True s3 "1.prems" by (intro "1.IH" [OF True s2_def s3_def]) simp_all
    show ?thesis
      unfolding eq using ih mset_move [OF h c] by simp
  qed
qed

lemma adjust_heap_props:
  assumes hole: "hole < len" and len: "first + len \<le> length xs"
  shows "length (adjust_heap xs first hole len val) = length xs \<and>
         mset (adjust_heap xs first hole len val) = mset (xs[first + hole := val])"
proof -
  obtain ys h s where r: "adjust_heap_loop xs first hole hole len = (ys, h, s)"
    by (cases "adjust_heap_loop xs first hole hole len") auto
  from adjust_heap_loop_props [OF refl hole len] r
  have l: "length ys = length xs" and h: "h < len" and s: "s = h"
    and m: "\<And>v. mset (ys[first + h := v]) = mset (xs[first + hole := v])"
    by simp_all
  show ?thesis
  proof (cases "even len \<and> 2 \<le> len \<and> s = (len - 2) div 2")
    case False
    then have "adjust_heap xs first hole len val = push_heap ys first h hole val"
      by (auto simp: adjust_heap_def r)
    moreover have "first + h < length ys"
      using h len l by simp
    ultimately show ?thesis
      using push_heap_props [of first h ys hole val] l m by simp
  next
    case True
    let ?h2 = "2 * (s + 1) - 1"
    let ?ys2 = "ys[first + h := ys ! (first + ?h2)]"
    have eq: "adjust_heap xs first hole len val = push_heap ?ys2 first ?h2 hole val"
      using True by (simp add: adjust_heap_def r)
    have h2: "?h2 < len"
      using True by auto
    have a: "first + h < length ys" and b: "first + ?h2 < length ys"
      using h h2 len l by simp_all
    then have "first + ?h2 < length ?ys2"
      by simp
    from push_heap_props [OF this, of hole val]
    have "length (push_heap ?ys2 first ?h2 hole val) = length xs"
      and "mset (push_heap ?ys2 first ?h2 hole val) = mset (?ys2[first + ?h2 := val])"
      using l by simp_all
    moreover have "mset (?ys2[first + ?h2 := val]) = mset (ys[first + h := val])"
      by (rule mset_move [OF a b])
    ultimately show ?thesis
      unfolding eq using m by simp
  qed
qed

lemma pop_heap_props:
  assumes "first < lst" and "lst \<le> length xs" and "result < length xs"
  shows "length (pop_heap xs first lst result) = length xs \<and>
         mset (pop_heap xs first lst result) = mset xs"
proof -
  let ?ys = "xs[result := xs ! first]"
  have "length (adjust_heap ?ys first 0 (lst - first) (xs ! result)) = length ?ys \<and>
        mset (adjust_heap ?ys first 0 (lst - first) (xs ! result)) = mset (?ys[first + 0 := xs ! result])"
    using assms by (intro adjust_heap_props) simp_all
  moreover have "mset (xs[result := xs ! first, first := xs ! result]) = mset xs"
    using assms by (intro mset_swap) simp_all
  ultimately show ?thesis
    by (simp add: pop_heap_def Let_def)
qed

lemma make_heap_props:
  assumes "lst \<le> length xs"
  shows "length (make_heap xs first lst) = length xs \<and> mset (make_heap xs first lst) = mset xs"
proof (cases "lst - first < 2")
  case True
  then show ?thesis by (simp add: make_heap_def)
next
  case False
  let ?f = "\<lambda>parent xs. adjust_heap xs first parent (lst - first) (xs ! (first + parent))"
  have "length (fold ?f (rev [0..<Suc ((lst - first - 2) div 2)]) xs) = length xs \<and>
        mset (fold ?f (rev [0..<Suc ((lst - first - 2) div 2)]) xs) = mset xs"
  proof (rule fold_invariant [where P = "\<lambda>s. length s = length xs \<and> mset s = mset xs"])
    show "length xs = length xs \<and> mset xs = mset xs" by simp
  next
    fix p s
    assume p: "p \<in> set (rev [0..<Suc ((lst - first - 2) div 2)])"
      and s: "length s = length xs \<and> mset s = mset xs"
    from p False have "p < lst - first"
      by auto
    moreover have "first + (lst - first) \<le> length s"
      using assms s False by simp
    ultimately have "length (?f p s) = length s \<and> mset (?f p s) = mset (s[first + p := s ! (first + p)])"
      by (rule adjust_heap_props)
    with s show "length (?f p s) = length xs \<and> mset (?f p s) = mset xs"
      by simp
  qed
  with False show ?thesis
    by (simp add: make_heap_def)
qed

lemma sort_heap_props:
  assumes "lst \<le> length xs"
  shows "length (sort_heap xs first lst) = length xs \<and> mset (sort_heap xs first lst) = mset xs"
  unfolding sort_heap_def
proof (rule fold_invariant [where P = "\<lambda>s. length s = length xs \<and> mset s = mset xs"])
  show "length xs = length xs \<and> mset xs = mset xs" by simp
next
  fix l s
  assume l: "l \<in> set (rev [Suc first..<lst])" and s: "length s = length xs \<and> mset s = mset xs"
  have "length (pop_heap s first l l) = length s \<and> mset (pop_heap s first l l) = mset s"
    using l s assms by (intro pop_heap_props) auto
  with s show "length (pop_heap s first l l) = length xs \<and> mset (pop_heap s first l l) = mset xs"
    by simp
qed

lemma heap_select_props:
  assumes "first < middle" and "middle \<le> lst" and "lst \<le> length xs"
  shows "length (heap_select xs first middle lst) = length xs \<and>
         mset (heap_select xs first middle lst) = mset xs"
  unfolding heap_select_def
proof (rule fold_invariant [where P = "\<lambda>s. length s = length xs \<and> mset s = mset xs"])
  show "length (make_heap xs first middle) = length xs \<and> mset (make_heap xs first middle) = mset xs"
    using assms by (intro make_heap_props) simp
next
  fix i s
  assume i: "i \<in> set [middle..<lst]" and s: "length s = length xs \<and> mset s = mset xs"
  have "length (pop_heap s first middle i) = length s \<and> mset (pop_heap s first middle i) = mset s"
    using i s assms by (intro pop_heap_props) auto
  with s show "length (if lru_less (s ! i) (s ! first) then pop_heap s first middle i else s) = length xs \<and>
      mset (if lru_less (s ! i) (s ! first) then pop_heap s first middle i else s) = mset xs"
    by simp
qed

lemma partial_sort_props:
  assumes "first < middle" and "middle \<le> lst" and "lst \<le> length xs"
  shows "length (partial_sort xs first middle lst) = length xs \<and>
         mset (partial_sort xs first middle lst) = mset xs"
proof -
  note h = heap_select_props [OF assms]
  then have "middle \<le> length (heap_select xs first middle lst)"
    using assms by simp
  from sort_heap_props [OF this, of first] h show ?thesis
    by (simp add: partial_sort_def)
qed

lemma introsort_loop_props:
  assumes "lst \<le> length xs"
  shows "length (introsort_loop xs first lst depth_limit) = length xs \<and>
         mset (introsort_loop xs first lst depth_limit) = mset xs"
  using assms
proof (induction depth_limit arbitrary: xs first lst)
  case 0
  then show ?case
    using partial_sort_props [of first lst lst xs] by simp
next
  case (Suc d)
  show ?case
  proof (cases "16 < lst - first")
    case False
    then show ?thesis by simp
  next
    case True
    let ?cut = "fst (unguarded_partition_pivot xs first lst)"
    let ?xs1 = "snd (unguarded_partition_pivot xs first lst)"
    let ?xs2 = "introsort_loop ?xs1 ?cut lst d"
    note p = unguarded_partition_pivot_props [OF True Suc.prems]
    have a: "length ?xs2 = length ?xs1 \<and> mset ?xs2 = mset ?xs1"
      using p Suc.prems by (intro Suc.IH) simp
    have b: "length (introsort_loop ?xs2 first ?cut d) = length ?xs2 \<and>
             mset (introsort_loop ?xs2 first ?cut d) = mset ?xs2"
      using p a by (intro Suc.IH) simp
    have "introsort_loop xs first lst (Suc d) = introsort_loop ?xs2 first ?cut d"
      using True by (simp add: split_beta)
    with a b p show ?thesis
      by simp
  qed
qed

lemma std_sort_meets_spec: "std_sort_spec std_sort"
  unfolding std_sort_spec_def
proof
  fix xs :: "cpu_cache_entry list"
  show "mset (std_sort xs) = mset xs \<and>
        sorted_wrt (\<lambda>a b. \<not> last_access b < last_access a) (std_sort xs)"
  proof (cases "xs = []")
    case True
    then show ?thesis by (simp add: std_sort_def)
  next
    case False
    let ?ys = "introsort_loop xs 0 (length xs) (lg (length xs) * 2)"
    have i: "length ?ys = length xs \<and> mset ?ys = mset xs"
      by (intro introsort_loop_props) simp
    then have ne: "?ys \<noteq> []"
      using False by auto
    from final_insertion_sort_sorts [OF ne] i
    have "mset (final_insertion_sort ?ys 0 (length xs)) = mset xs"
      and "sorted (map last_access (final_insertion_sort ?ys 0 (length xs)))"
      by simp_all
    with False show ?thesis
      by (simp add: std_sort_def sorted_map not_less)
  qed
qed

text \<open>
  The sort of the GNU C++ library on 17 entries that tie: the median-of-three step swaps
  entry 0 with entry 8, the partition reverses what follows, the two parts have at most
  16 entries and the insertion sort leaves ties where they are.
\<close>

lemma lru_tied: "lru_less (tied_entry i) (tied_entry j) = False"
  by (simp add: lru_less_def tied_entry_def)

lemma unguarded_linear_insert_stay:
  "0 < i \<Longrightarrow> \<not> lru_less val (xs ! (i - 1)) \<Longrightarrow> unguarded_linear_insert xs val i = xs[i := val]"
  by (cases i) simp_all

lemma scan_down_stay:
  "0 < n \<Longrightarrow> \<not> lru_less (xs ! pivot) (xs ! n) \<Longrightarrow> scan_down xs pivot n = n"
  by (cases n) simp_all

lemma scan_up_stay:
  "\<not> lru_less (xs ! first) (xs ! pivot) \<Longrightarrow> scan_up xs pivot first = first"
  by (subst scan_up.simps) simp

lemma introsort_loop_small:
  "lst - first \<le> 16 \<Longrightarrow> introsort_loop xs first lst depth_limit = xs"
  by (cases depth_limit) simp_all

lemma median_17:
  "move_median_to_first
     [tied_entry 0, tied_entry 1, tied_entry 2, tied_entry 3, tied_entry 4, tied_entry 5,
      tied_entry 6, tied_entry 7, tied_entry 8, tied_entry 9, tied_entry 10,
      tied_entry 11, tied_entry 12, tied_entry 13, tied_entry 14, tied_entry 15,
      tied_entry 16] 0 (Suc 0) 8 16 =
     [tied_entry 8, tied_entry 1, tied_entry 2, tied_entry 3, tied_entry 4, tied_entry 5,
      tied_entry 6, tied_entry 7, tied_entry 0, tied_entry 9, tied_entry 10,
      tied_entry 11, tied_entry 12, tied_entry 13, tied_entry 14, tied_entry 15,
      tied_entry 16]"
  by (simp add: move_median_to_first_def iter_swap_def lru_tied)

lemma partition_17:
  "unguarded_partition
     [tied_entry 8, tied_entry 1, tied_entry 2, tied_entry 3, tied_entry 4, tied_entry 5,
      tied_entry 6, tied_entry 7, tied_entry 0, tied_entry 9, tied_entry 10,
      tied_entry 11, tied_entry 12, tied_entry 13, tied_entry 14, tied_entry 15,
      tied_entry 16] (Suc 0) 17 0 =
   (9,
     [tied_entry 8, tied_entry 16, tied_entry 15, tied_entry 14, tied_entry 13,
      tied_entry 12, tied_entry 11, tied_entry 10, tied_entry 9, tied_entry 0,
      tied_entry 7, tied_entry 6, tied_entry 5, tied_entry 4, tied_entry 3,
      tied_entry 2, tied_entry 1])"
  by (simp add: iter_swap_def lru_tied unguarded_partition.simps scan_up_stay scan_down_stay Let_def)


lemma final_17:
  "final_insertion_sort
     [tied_entry 8, tied_entry 16, tied_entry 15, tied_entry 14, tied_entry 13,
      tied_entry 12, tied_entry 11, tied_entry 10, tied_entry 9, tied_entry 0,
      tied_entry 7, tied_entry 6, tied_entry 5, tied_entry 4, tied_entry 3,
      tied_entry 2, tied_entry 1] 0 17 =
     [tied_entry 8, tied_entry 16, tied_entry 15, tied_entry 14, tied_entry 13,
      tied_entry 12, tied_entry 11, tied_entry 10, tied_entry 9, tied_entry 0,
      tied_entry 7, tied_entry 6, tied_entry 5, tied_entry 4, tied_entry 3,
      tied_entry 2, tied_entry 1]"
  by (simp add: final_insertion_sort_def insertion_sort_def unguarded_insertion_sort_def upt_rec
        unguarded_linear_insert_stay lru_tied)


lemma pivot_17:
  "unguarded_partition_pivot
     [tied_entry 0, tied_entry 1, tied_entry 2, tied_entry 3, tied_entry 4, tied_entry 5,
      tied_entry 6, tied_entry 7, tied_entry 8, tied_entry 9, tied_entry 10,
      tied_entry 11, tied_entry 12, tied_entry 13, tied_entry 14, tied_entry 15,
      tied_entry 16] 0 17 =
   (9,
     [tied_entry 8, tied_entry 16, tied_entry 15, tied_entry 14, tied_entry 13,
      tied_entry 12, tied_entry 11, tied_entry 10, tied_entry 9, tied_entry 0,
      tied_entry 7, tied_entry 6, tied_entry 5, tied_entry 4, tied_entry 3,
      tied_entry 2, tied_entry 1])"
  by (simp add: unguarded_partition_pivot_def median_17 partition_17)

lemma introsort_17:
  "introsort_loop
     [tied_entry 0, tied_entry 1, tied_entry 2, tied_entry 3, tied_entry 4, tied_entry 5,
      tied_entry 6, tied_entry 7, tied_entry 8, tied_entry 9, tied_entry 10,
      tied_entry 11, tied_entry 12, tied_entry 13, tied_entry 14, tied_entry 15,
      tied_entry 16] 0 17 (Suc 7) =
     [tied_entry 8, tied_entry 16, tied_entry 15, tied_entry 14, tied_entry 13,
      tied_entry 12, tied_entry 11, tied_entry 10, tied_entry 9, tied_entry 0,
      tied_entry 7, tied_entry 6, tied_entry 5, tied_entry 4, tied_entry 3,
      tied_entry 2, tied_entry 1]"
  by (subst introsort_loop.simps) (simp add: pivot_17 introsort_loop_small)

lemma lg_17: "lg 17 * 2 = Suc 7"
  by (simp add: lg.simps)

lemma std_sort_17:
  "std_sort
     [tied_entry 0, tied_entry 1, tied_entry 2, tied_entry 3, tied_entry 4, tied_entry 5,
      tied_entry 6, tied_entry 7, tied_entry 8, tied_entry 9, tied_entry 10,
      tied_entry 11, tied_entry 12, tied_entry 13, tied_entry 14, tied_entry 15,
      tied_entry 16] =
     [tied_entry 8, tied_entry 16, tied_entry 15, tied_entry 14, tied_entry 13,
      tied_entry 12, tied_entry 11, tied_entry 10, tied_entry 9, tied_entry 0,
      tied_entry 7, tied_entry 6, tied_entry 5, tied_entry 4, tied_entry 3,
      tied_entry 2, tied_entry 1]"
proof -
  have len: "length
     [tied_entry 0, tied_entry 1, tied_entry 2, tied_entry 3, tied_entry 4, tied_entry 5,
      tied_entry 6, tied_entry 7, tied_entry 8, tied_entry 9, tied_entry 10,
      tied_entry 11, tied_entry 12, tied_entry 13, tied_entry 14, tied_entry 15,
      tied_entry 16] = 17"
    by simp
  show ?thesis
    unfolding std_sort_def len lg_17 introsort_17 final_17 by simp
qed

lemma entry_size_tied: "entry_size (tied_entry k) = 10"
  by (simp add: tied_entry_def)

text \<open>
  Ties are not broken by insertion order. The sort of the GNU C++ library meets
  \<open>std_sort_spec\<close>, and with it, 17 entries of equal \<open>last_access\<close> and a budget
  that one of them exceeds, the entry freed is the one inserted ninth, not the one
  inserted first.
\<close>

theorem evict_lru_tie_counterexample:
  "std_sort_spec std_sort \<and>
   evict_lru std_sort
     \<lparr> cpu_cache =
         [tied_entry 0, tied_entry 1, tied_entry 2, tied_entry 3, tied_entry 4, tied_entry 5,
      tied_entry 6, tied_entry 7, tied_entry 8, tied_entry 9, tied_entry 10,
      tied_entry 11, tied_entry 12, tied_entry 13, tied_entry 14, tied_entry 15,
      tied_entry 16],
       cpu_cache_budget = 160 \<rparr> =
     ([tied_entry 8],
      \<lparr> cpu_cache =
          [tied_entry 16, tied_entry 15, tied_entry 14, tied_entry 13, tied_entry 12,
      tied_entry 11, tied_entry 10, tied_entry 9, tied_entry 0, tied_entry 7,
      tied_entry 6, tied_entry 5, tied_entry 4, tied_entry 3, tied_entry 2,
      tied_entry 1],
        cpu_cache_budget = 160 \<rparr>) \<and>
   last_access (tied_entry 8) = last_access (tied_entry 0) \<and>
   tied_entry 8 \<noteq> tied_entry 0"
  by (simp add: std_sort_meets_spec evict_lru_def std_sort_17 cache_total_def entry_size_tied)
    (simp add: tied_entry_def)

section \<open>Swapping a layer to the GPU and back\<close>

lemma layer_tensors_simps:
  "layer_tensors [] = []"
  "layer_tensors (None # rest) = layer_tensors rest"
  "layer_tensors (Some t # rest) = t # layer_tensors rest"
  by (simp_all add: layer_tensors_def List.map_filter_simps)

lemma redirect_tensors_dom:
  "redirect_tensors base buf layer (saved, h, offset) = Inr (saved', h', offset') \<Longrightarrow> dom h' = dom h"
proof (induction layer arbitrary: saved h offset)
  case Nil
  then show ?case by simp
next
  case (Cons p rest)
  show ?case
  proof (cases p)
    case None
    with Cons show ?thesis by simp
  next
    case (Some t)
    with Cons.prems obtain T where T: "h t = Some T"
      and rec: "redirect_tensors base buf rest
            (saved @ [\<lparr> tensor = t, orig_data = data T, orig_buffer = buffer T \<rparr>],
             h(t \<mapsto> T \<lparr> data := base + offset, buffer := buf \<rparr>),
             offset + nbytes T) = Inr (saved', h', offset')"
      by (auto split: option.splits)
    from Cons.IH [OF rec] have "dom h' = dom (h(t \<mapsto> T \<lparr> data := base + offset, buffer := buf \<rparr>))" .
    with T show ?thesis by auto
  qed
qed

lemma restore_ptrs_dom:
  "restore_ptrs sps h = Inr h' \<Longrightarrow> dom h' = dom h"
proof (induction sps arbitrary: h)
  case Nil
  then show ?case by simp
next
  case (Cons sp sps)
  from Cons.prems obtain T where T: "h (tensor sp) = Some T"
    and rec: "restore_ptrs sps (h(tensor sp \<mapsto> T \<lparr> data := orig_data sp, buffer := orig_buffer sp \<rparr>)) = Inr h'"
    by (auto split: option.splits)
  from Cons.IH [OF rec] T show ?case by (auto split: if_splits)
qed

lemma redirect_tensors_distinct:
  assumes "distinct (layer_tensors layer)" and "set (layer_tensors layer) \<subseteq> dom h"
  shows "\<exists>h' offset'.
           redirect_tensors base buf layer (saved, h, offset) =
             Inr (saved @ map (saved_ptr_of h) (layer_tensors layer), h', offset') \<and>
           (\<forall>x. x \<notin> set (layer_tensors layer) \<longrightarrow> h' x = h x) \<and>
           (\<forall>x \<in> set (layer_tensors layer).
              \<exists>T T1. h x = Some T \<and> h' x = Some T1 \<and> nbytes T1 = nbytes T \<and> buffer T1 = buf)"
  using assms
proof (induction layer arbitrary: saved h offset)
  case Nil
  then show ?case by (simp add: layer_tensors_simps)
next
  case (Cons p rest)
  show ?case
  proof (cases p)
    case None
    with Cons show ?thesis by (simp add: layer_tensors_simps)
  next
    case (Some t)
    let ?ts = "layer_tensors rest"
    from Cons.prems Some have d: "distinct ?ts" and tn: "t \<notin> set ?ts"
      and sub: "set ?ts \<subseteq> dom h" and td: "t \<in> dom h"
      by (simp_all add: layer_tensors_simps)
    from td obtain T where T: "h t = Some T" by auto
    let ?h1 = "h(t \<mapsto> T \<lparr> data := base + offset, buffer := buf \<rparr>)"
    let ?s1 = "saved @ [\<lparr> tensor = t, orig_data = data T, orig_buffer = buffer T \<rparr>]"
    have sub1: "set ?ts \<subseteq> dom ?h1" using sub by auto
    from Cons.IH [OF d sub1, of ?s1 "offset + nbytes T"] obtain h' offset' where
      r: "redirect_tensors base buf rest (?s1, ?h1, offset + nbytes T) =
            Inr (?s1 @ map (saved_ptr_of ?h1) ?ts, h', offset')"
      and out: "\<forall>x. x \<notin> set ?ts \<longrightarrow> h' x = ?h1 x"
      and inn: "\<forall>x \<in> set ?ts. \<exists>T' T1. ?h1 x = Some T' \<and> h' x = Some T1 \<and> nbytes T1 = nbytes T' \<and> buffer T1 = buf"
      by blast
    have same: "map (saved_ptr_of ?h1) ?ts = map (saved_ptr_of h) ?ts"
      using tn by (intro map_cong) (auto simp: saved_ptr_of_def)
    have first: "saved_ptr_of h t = \<lparr> tensor = t, orig_data = data T, orig_buffer = buffer T \<rparr>"
      using T by (simp add: saved_ptr_of_def)
    have run: "redirect_tensors base buf (p # rest) (saved, h, offset) =
          Inr (saved @ map (saved_ptr_of h) (layer_tensors (p # rest)), h', offset')"
      using Some T r same first by (simp add: layer_tensors_simps)
    have o: "\<forall>x. x \<notin> set (layer_tensors (p # rest)) \<longrightarrow> h' x = h x"
      using Some out by (simp add: layer_tensors_simps)
    have i: "\<forall>x \<in> set (layer_tensors (p # rest)).
              \<exists>T' T1. h x = Some T' \<and> h' x = Some T1 \<and> nbytes T1 = nbytes T' \<and> buffer T1 = buf"
    proof
      fix x assume "x \<in> set (layer_tensors (p # rest))"
      then consider "x = t" | "x \<in> set ?ts" using Some by (auto simp: layer_tensors_simps)
      then show "\<exists>T' T1. h x = Some T' \<and> h' x = Some T1 \<and> nbytes T1 = nbytes T' \<and> buffer T1 = buf"
      proof cases
        case 1
        then have "h' x = Some (T \<lparr> data := base + offset, buffer := buf \<rparr>)"
          using out tn by simp
        with 1 T show ?thesis by simp
      next
        case 2
        then have "x \<noteq> t" using tn by auto
        with inn 2 show ?thesis by auto
      qed
    qed
    from run o i show ?thesis by blast
  qed
qed

lemma restore_ptrs_distinct:
  assumes "distinct ts"
    and "\<forall>x \<in> set ts. \<exists>T T1. h x = Some T \<and> h1 x = Some T1 \<and> nbytes T1 = nbytes T"
  shows "restore_ptrs (map (saved_ptr_of h) ts) h1 = Inr (\<lambda>x. if x \<in> set ts then h x else h1 x)"
  using assms
proof (induction ts arbitrary: h1)
  case Nil
  then show ?case by simp
next
  case (Cons t ts)
  from Cons.prems obtain T T1 where T: "h t = Some T" "h1 t = Some T1" "nbytes T1 = nbytes T"
    by auto
  have orig: "T1 \<lparr> data := data T, buffer := buffer T \<rparr> = T"
    using T(3) by simp
  let ?h2 = "h1(t \<mapsto> T)"
  have pre: "\<forall>x \<in> set ts. \<exists>T T1. h x = Some T \<and> ?h2 x = Some T1 \<and> nbytes T1 = nbytes T"
    using Cons.prems by auto
  from Cons.prems have d: "distinct ts" and tn: "t \<notin> set ts"
    by simp_all
  have "restore_ptrs (map (saved_ptr_of h) (t # ts)) h1 =
        restore_ptrs (map (saved_ptr_of h) ts) (h1(t \<mapsto> T1 \<lparr> data := data T, buffer := buffer T \<rparr>))"
    using T by (simp add: saved_ptr_of_def)
  also have "\<dots> = restore_ptrs (map (saved_ptr_of h) ts) ?h2"
    by (simp only: orig)
  also have "\<dots> = Inr (\<lambda>x. if x \<in> set ts then h x else ?h2 x)"
    by (rule Cons.IH [OF d pre])
  also have "(\<lambda>x. if x \<in> set ts then h x else ?h2 x) = (\<lambda>x. if x \<in> set (t # ts) then h x else h1 x)"
    using T tn by auto
  finally show ?case .
qed

lemma swap_layer_to_gpu_dom:
  assumes "swap_layer_to_gpu gb w i layer h = Inr (w', h')"
  shows "dom h' = dom h"
  using assms redirect_tensors_dom
  by (fastforce simp: swap_layer_to_gpu_def Let_def split: if_splits sum.splits prod.splits)

lemma swap_layer_to_cpu_dom:
  assumes "swap_layer_to_cpu w i layer h = Inr (w', h')"
  shows "dom h' = dom h"
  using assms restore_ptrs_dom
  by (fastforce simp: swap_layer_to_cpu_def Let_def split: if_splits sum.splits)

lemma swap_gpu_tier_noop:
  assumes "0 \<le> i" and "nat i < length (entries w)" and "tier (entries w ! nat i) = LLAMA_TIER_GPU"
  shows "swap_layer_to_gpu gb w i layer h = Inr (w, h) \<and> swap_layer_to_cpu w i layer h = Inr (w, h)"
  using assms by (simp add: swap_layer_to_gpu_def swap_layer_to_cpu_def)

lemma swap_round_trip_lemma:
  assumes valid: "0 \<le> i" "nat i < length (entries w)"
    and cpu: "tier (entries w ! nat i) \<noteq> LLAMA_TIER_GPU"
    and unstaged: "staging_slot (entries w ! nat i) < 0"
    and slot: "active_slot w = 0 \<or> active_slot w = 1"
    and dist: "distinct (layer_tensors layer)" and sub: "set (layer_tensors layer) \<subseteq> dom h"
  shows "\<exists>w1 h1. swap_layer_to_gpu gb w i layer h = Inr (w1, h1) \<and>
           staging_slot (entries w1 ! nat i) = active_slot w \<and>
           swap_layer_to_cpu w1 i layer h1 =
             Inr (w \<lparr> entries := (entries w)[nat i :=
                        (entries w ! nat i) \<lparr> saved_ptrs := [], staging_slot := - 1 \<rparr>] \<rparr>, h)"
proof -
  let ?entry = "entries w ! nat i"
  let ?slot = "active_slot w"
  let ?buf = "if ?slot = 0 then fst (staging_gpu_buffer w) else snd (staging_gpu_buffer w)"
  let ?ts = "layer_tensors layer"
  from redirect_tensors_distinct [OF dist sub, of "gb ?buf" ?buf "[]" 0]
  obtain h1 off where
    red: "redirect_tensors (gb ?buf) ?buf layer ([], h, 0) = Inr (map (saved_ptr_of h) ?ts, h1, off)"
    and out: "\<forall>x. x \<notin> set ?ts \<longrightarrow> h1 x = h x"
    and inn: "\<forall>x \<in> set ?ts. \<exists>T T1. h x = Some T \<and> h1 x = Some T1 \<and> nbytes T1 = nbytes T \<and> buffer T1 = ?buf"
    by auto
  let ?e1 = "?entry \<lparr> staging_slot := ?slot, saved_ptrs := map (saved_ptr_of h) ?ts \<rparr>"
  let ?w1 = "w \<lparr> entries := (entries w)[nat i := ?e1] \<rparr>"
  have s01: "0 \<le> ?slot" "?slot < 2"
    using slot by auto
  have gpu: "swap_layer_to_gpu gb w i layer h = Inr (?w1, h1)"
    using valid cpu unstaged s01 red by (simp add: swap_layer_to_gpu_def Let_def)
  have e1: "entries ?w1 ! nat i = ?e1"
    using valid by simp
  have pre: "\<forall>x \<in> set ?ts. \<exists>T T1. h x = Some T \<and> h1 x = Some T1 \<and> nbytes T1 = nbytes T"
    using inn by blast
  have "restore_ptrs (map (saved_ptr_of h) ?ts) h1 = Inr (\<lambda>x. if x \<in> set ?ts then h x else h1 x)"
    by (rule restore_ptrs_distinct [OF dist pre])
  moreover have "(\<lambda>x. if x \<in> set ?ts then h x else h1 x) = h"
    using out by auto
  ultimately have res: "restore_ptrs (saved_ptrs ?e1) h1 = Inr h"
    by simp
  have len1: "nat i < length (entries ?w1)"
    using valid by simp
  have cpu1: "tier ?e1 \<noteq> LLAMA_TIER_GPU" "\<not> staging_slot ?e1 < 0"
    using cpu s01 by simp_all
  have "swap_layer_to_cpu ?w1 i layer h1 =
          Inr (?w1 \<lparr> entries := (entries ?w1)[nat i := ?e1 \<lparr> saved_ptrs := [], staging_slot := - 1 \<rparr>] \<rparr>, h)"
    unfolding swap_layer_to_cpu_def Let_def e1
    using valid(1) len1 cpu1 res by simp
  then have cpu_back: "swap_layer_to_cpu ?w1 i layer h1 =
          Inr (w \<lparr> entries := (entries w)[nat i := ?entry \<lparr> saved_ptrs := [], staging_slot := - 1 \<rparr>] \<rparr>, h)"
    by simp
  have "staging_slot (entries ?w1 ! nat i) = ?slot"
    using e1 by simp
  with gpu cpu_back show ?thesis
    by blast
qed

lemma swap_cycle_once:
  assumes valid: "0 \<le> i" "nat i < length (entries w)"
    and cpu: "tier (entries w ! nat i) \<noteq> LLAMA_TIER_GPU"
    and unstaged: "staging_slot (entries w ! nat i) < 0"
    and slot: "active_slot w = 0 \<or> active_slot w = 1"
    and dist: "distinct (layer_tensors layer)" and sub: "set (layer_tensors layer) \<subseteq> dom h"
  shows "swap_cycle gb i layer (w, h) =
           Inr (w \<lparr> entries := (entries w)[nat i :=
                      (entries w ! nat i) \<lparr> saved_ptrs := [], staging_slot := - 1 \<rparr>] \<rparr>, h)"
proof -
  from swap_round_trip_lemma [OF assms, of gb] obtain w1 h1 where
    "swap_layer_to_gpu gb w i layer h = Inr (w1, h1)"
    "swap_layer_to_cpu w1 i layer h1 =
       Inr (w \<lparr> entries := (entries w)[nat i :=
                  (entries w ! nat i) \<lparr> saved_ptrs := [], staging_slot := - 1 \<rparr>] \<rparr>, h)"
    by blast
  then show ?thesis
    by (simp add: swap_cycle_def)
qed

lemma swap_cycles_many:
  assumes valid: "0 \<le> i" "nat i < length (entries w)"
    and cpu: "tier (entries w ! nat i) \<noteq> LLAMA_TIER_GPU"
    and unstaged: "staging_slot (entries w ! nat i) < 0"
    and slot: "active_slot w = 0 \<or> active_slot w = 1"
    and dist: "distinct (layer_tensors layer)" and sub: "set (layer_tensors layer) \<subseteq> dom h"
  shows "swap_cycles (Suc n) gb i layer (w, h) =
           Inr (w \<lparr> entries := (entries w)[nat i :=
                      (entries w ! nat i) \<lparr> saved_ptrs := [], staging_slot := - 1 \<rparr>] \<rparr>, h)"
proof -
  let ?w2 = "w \<lparr> entries := (entries w)[nat i :=
                      (entries w ! nat i) \<lparr> saved_ptrs := [], staging_slot := - 1 \<rparr>] \<rparr>"
  have v2: "nat i < length (entries ?w2)" using valid by simp
  have e2: "entries ?w2 ! nat i = (entries w ! nat i) \<lparr> saved_ptrs := [], staging_slot := - 1 \<rparr>"
    using valid by simp
  have c2: "tier (entries ?w2 ! nat i) \<noteq> LLAMA_TIER_GPU" using cpu e2 by simp
  have u2: "staging_slot (entries ?w2 ! nat i) < 0" using e2 by simp
  have s2: "active_slot ?w2 = 0 \<or> active_slot ?w2 = 1" using slot by simp
  have fix2: "?w2 \<lparr> entries := (entries ?w2)[nat i :=
                      (entries ?w2 ! nat i) \<lparr> saved_ptrs := [], staging_slot := - 1 \<rparr>] \<rparr> = ?w2"
    using valid by simp
  have again: "swap_cycle gb i layer (?w2, h) = Inr (?w2, h)"
    using swap_cycle_once [OF valid(1) v2 c2 u2 s2 dist sub, of gb] fix2 by simp
  have rest: "swap_cycles m gb i layer (?w2, h) = Inr (?w2, h)" for m
    by (induction m) (simp_all add: again)
  have "swap_cycle gb i layer (w, h) = Inr (?w2, h)"
    by (rule swap_cycle_once [OF assms])
  then show ?thesis
    using rest [of n] by simp
qed

text \<open>
  C6 (amended). Let \<open>il\<close> be the index of a layer entry. For a GPU-tier layer
  \<open>swap_layer_to_gpu\<close> and \<open>swap_layer_to_cpu\<close> change nothing. For a layer of another
  tier that is not staged (\<open>staging_slot < 0\<close>), with \<open>active_slot\<close> 0 or 1 and the
  non-null tensor fields of the layer pointing to pairwise different tensors of the
  store, \<open>swap_layer_to_gpu\<close> stages the layer in the active slot and
  \<open>swap_layer_to_cpu\<close> after it gives back the tensor store exactly as it was (every
  data pointer and buffer handle restored), with the entry unstaged and its saved list
  empty; so does any number \<open>n + 1\<close> of such cycles in a row. Neither function ever
  adds a tensor to the store or removes one.
\<close>

theorem swap_round_trip:
  assumes valid: "0 \<le> i" "nat i < length (entries w)"
  shows "(tier (entries w ! nat i) = LLAMA_TIER_GPU \<longrightarrow>
            swap_layer_to_gpu gb w i layer h = Inr (w, h) \<and> swap_layer_to_cpu w i layer h = Inr (w, h)) \<and>
         (tier (entries w ! nat i) \<noteq> LLAMA_TIER_GPU \<and> staging_slot (entries w ! nat i) < 0 \<and>
          (active_slot w = 0 \<or> active_slot w = 1) \<and>
          distinct (layer_tensors layer) \<and> set (layer_tensors layer) \<subseteq> dom h \<longrightarrow>
            (\<exists>w1 h1. swap_layer_to_gpu gb w i layer h = Inr (w1, h1) \<and>
               staging_slot (entries w1 ! nat i) = active_slot w \<and>
               swap_layer_to_cpu w1 i layer h1 =
                 Inr (w \<lparr> entries := (entries w)[nat i :=
                            (entries w ! nat i) \<lparr> saved_ptrs := [], staging_slot := - 1 \<rparr>] \<rparr>, h)) \<and>
            swap_cycles (Suc n) gb i layer (w, h) =
              Inr (w \<lparr> entries := (entries w)[nat i :=
                         (entries w ! nat i) \<lparr> saved_ptrs := [], staging_slot := - 1 \<rparr>] \<rparr>, h)) \<and>
         (swap_layer_to_gpu gb w i layer h = Inr (w', h') \<longrightarrow> dom h' = dom h) \<and>
         (swap_layer_to_cpu w i layer h = Inr (w', h') \<longrightarrow> dom h' = dom h)"
proof (intro conjI impI)
  assume "tier (entries w ! nat i) = LLAMA_TIER_GPU"
  then show "swap_layer_to_gpu gb w i layer h = Inr (w, h)" "swap_layer_to_cpu w i layer h = Inr (w, h)"
    using swap_gpu_tier_noop [OF valid] by blast+
next
  assume h: "tier (entries w ! nat i) \<noteq> LLAMA_TIER_GPU \<and> staging_slot (entries w ! nat i) < 0 \<and>
          (active_slot w = 0 \<or> active_slot w = 1) \<and>
          distinct (layer_tensors layer) \<and> set (layer_tensors layer) \<subseteq> dom h"
  then show "\<exists>w1 h1. swap_layer_to_gpu gb w i layer h = Inr (w1, h1) \<and>
               staging_slot (entries w1 ! nat i) = active_slot w \<and>
               swap_layer_to_cpu w1 i layer h1 =
                 Inr (w \<lparr> entries := (entries w)[nat i :=
                            (entries w ! nat i) \<lparr> saved_ptrs := [], staging_slot := - 1 \<rparr>] \<rparr>, h)"
    using swap_round_trip_lemma [OF valid] by blast
  from h show "swap_cycles (Suc n) gb i layer (w, h) =
              Inr (w \<lparr> entries := (entries w)[nat i :=
                         (entries w ! nat i) \<lparr> saved_ptrs := [], staging_slot := - 1 \<rparr>] \<rparr>, h)"
    using swap_cycles_many [OF valid] by blast
next
  assume "swap_layer_to_gpu gb w i layer h = Inr (w', h')"
  then show "dom h' = dom h"
    by (rule swap_layer_to_gpu_dom)
next
  assume "swap_layer_to_cpu w i layer h = Inr (w', h')"
  then show "dom h' = dom h"
    by (rule swap_layer_to_cpu_dom)
qed

theorem swap_round_trip_witness:
  "(0 :: int) \<le> 1 \<and>
   nat 1 < length (entries \<lparr> n_layer = 2, n_window = 1, n_gpu_static = 1, entries = [\<lparr> il = 0, tier = LLAMA_TIER_GPU, xfer_state = LLAMA_XFER_IDLE, weight_bytes = 48, staging_slot = - 1, saved_ptrs = [] \<rparr>, \<lparr> il = 1, tier = LLAMA_TIER_CPU, xfer_state = LLAMA_XFER_IDLE, weight_bytes = 48, staging_slot = - 1, saved_ptrs = [] \<rparr>], active_slot = 1, staging_gpu_buffer = (5, 6) \<rparr>) \<and>
   tier (entries \<lparr> n_layer = 2, n_window = 1, n_gpu_static = 1, entries = [\<lparr> il = 0, tier = LLAMA_TIER_GPU, xfer_state = LLAMA_XFER_IDLE, weight_bytes = 48, staging_slot = - 1, saved_ptrs = [] \<rparr>, \<lparr> il = 1, tier = LLAMA_TIER_CPU, xfer_state = LLAMA_XFER_IDLE, weight_bytes = 48, staging_slot = - 1, saved_ptrs = [] \<rparr>], active_slot = 1, staging_gpu_buffer = (5, 6) \<rparr> ! nat 1) \<noteq> LLAMA_TIER_GPU \<and>
   staging_slot (entries \<lparr> n_layer = 2, n_window = 1, n_gpu_static = 1, entries = [\<lparr> il = 0, tier = LLAMA_TIER_GPU, xfer_state = LLAMA_XFER_IDLE, weight_bytes = 48, staging_slot = - 1, saved_ptrs = [] \<rparr>, \<lparr> il = 1, tier = LLAMA_TIER_CPU, xfer_state = LLAMA_XFER_IDLE, weight_bytes = 48, staging_slot = - 1, saved_ptrs = [] \<rparr>], active_slot = 1, staging_gpu_buffer = (5, 6) \<rparr> ! nat 1) < 0 \<and>
   active_slot \<lparr> n_layer = 2, n_window = 1, n_gpu_static = 1, entries = [\<lparr> il = 0, tier = LLAMA_TIER_GPU, xfer_state = LLAMA_XFER_IDLE, weight_bytes = 48, staging_slot = - 1, saved_ptrs = [] \<rparr>, \<lparr> il = 1, tier = LLAMA_TIER_CPU, xfer_state = LLAMA_XFER_IDLE, weight_bytes = 48, staging_slot = - 1, saved_ptrs = [] \<rparr>], active_slot = 1, staging_gpu_buffer = (5, 6) \<rparr> = 1 \<and>
   distinct (layer_tensors [Some 1, None, Some 2]) \<and>
   set (layer_tensors [Some 1, None, Some 2]) \<subseteq> dom [1 \<mapsto> \<lparr> data = 100, buffer = 7, nbytes = 16 \<rparr>, 2 \<mapsto> \<lparr> data = 200, buffer = 7, nbytes = 32 \<rparr>] \<and>
   swap_cycles (Suc 2) ((*) 1000) 1 [Some 1, None, Some 2]
     (\<lparr> n_layer = 2, n_window = 1, n_gpu_static = 1, entries = [\<lparr> il = 0, tier = LLAMA_TIER_GPU, xfer_state = LLAMA_XFER_IDLE, weight_bytes = 48, staging_slot = - 1, saved_ptrs = [] \<rparr>, \<lparr> il = 1, tier = LLAMA_TIER_CPU, xfer_state = LLAMA_XFER_IDLE, weight_bytes = 48, staging_slot = - 1, saved_ptrs = [] \<rparr>], active_slot = 1, staging_gpu_buffer = (5, 6) \<rparr>,
      [1 \<mapsto> \<lparr> data = 100, buffer = 7, nbytes = 16 \<rparr>, 2 \<mapsto> \<lparr> data = 200, buffer = 7, nbytes = 32 \<rparr>]) =
   Inr (\<lparr> n_layer = 2, n_window = 1, n_gpu_static = 1, entries = [\<lparr> il = 0, tier = LLAMA_TIER_GPU, xfer_state = LLAMA_XFER_IDLE, weight_bytes = 48, staging_slot = - 1, saved_ptrs = [] \<rparr>, \<lparr> il = 1, tier = LLAMA_TIER_CPU, xfer_state = LLAMA_XFER_IDLE, weight_bytes = 48, staging_slot = - 1, saved_ptrs = [] \<rparr>], active_slot = 1, staging_gpu_buffer = (5, 6) \<rparr>,
        [1 \<mapsto> \<lparr> data = 100, buffer = 7, nbytes = 16 \<rparr>, 2 \<mapsto> \<lparr> data = 200, buffer = 7, nbytes = 32 \<rparr>])"
proof -
  let ?w = "\<lparr> n_layer = 2, n_window = 1, n_gpu_static = 1, entries = [\<lparr> il = 0, tier = LLAMA_TIER_GPU, xfer_state = LLAMA_XFER_IDLE, weight_bytes = 48, staging_slot = - 1, saved_ptrs = [] \<rparr>, \<lparr> il = 1, tier = LLAMA_TIER_CPU, xfer_state = LLAMA_XFER_IDLE, weight_bytes = 48, staging_slot = - 1, saved_ptrs = [] \<rparr>], active_slot = 1, staging_gpu_buffer = (5, 6) \<rparr>"
  let ?h = "[1 \<mapsto> \<lparr> data = 100, buffer = 7, nbytes = 16 \<rparr>, 2 \<mapsto> \<lparr> data = 200, buffer = 7, nbytes = 32 \<rparr>]"
  let ?l = "[Some 1, None, Some 2] :: llama_layer"
  have valid: "(0 :: int) \<le> 1" "nat 1 < length (entries ?w)"
    by simp_all
  have pre: "tier (entries ?w ! nat 1) \<noteq> LLAMA_TIER_GPU" "staging_slot (entries ?w ! nat 1) < 0"
    "active_slot ?w = 1" "distinct (layer_tensors ?l)" "set (layer_tensors ?l) \<subseteq> dom ?h"
    by (simp_all add: layer_tensors_simps)
  have same: "?w \<lparr> entries := (entries ?w)[nat 1 :=
                 (entries ?w ! nat 1) \<lparr> saved_ptrs := [], staging_slot := - 1 \<rparr>] \<rparr> = ?w"
    by simp
  from swap_round_trip [OF valid, of "(*) 1000" ?l ?h 2] pre
  have "swap_cycles (Suc 2) ((*) 1000) 1 ?l (?w, ?h) =
          Inr (?w \<lparr> entries := (entries ?w)[nat 1 :=
                 (entries ?w ! nat 1) \<lparr> saved_ptrs := [], staging_slot := - 1 \<rparr>] \<rparr>, ?h)"
    by blast
  then have "swap_cycles (Suc 2) ((*) 1000) 1 ?l (?w, ?h) = Inr (?w, ?h)"
    by (simp only: same)
  with valid pre show ?thesis
    by blast
qed

text \<open>
  The pair of swaps is not the identity in every state. On a layer that is already
  staged \<open>swap_layer_to_gpu\<close> returns at once, and \<open>swap_layer_to_cpu\<close> then rewrites
  the tensor with the pointers saved earlier. And when two fields of the layer point to
  one tensor, the second visit saves the pointers the first has just written, and the
  restore, which runs through the saved list front to back, ends on them.
\<close>

theorem swap_round_trip_counterexample:
  "swap_layer_to_gpu ((*) 1000) \<lparr> n_layer = 1, n_window = 0, n_gpu_static = 0, entries = [\<lparr> il = 0, tier = LLAMA_TIER_CPU, xfer_state = LLAMA_XFER_IDLE, weight_bytes = 16, staging_slot = 0, saved_ptrs = [\<lparr> tensor = 1, orig_data = 100, orig_buffer = 7 \<rparr>] \<rparr>], active_slot = 0, staging_gpu_buffer = (5, 6) \<rparr> 0 [Some 1] [1 \<mapsto> \<lparr> data = 9000, buffer = 5, nbytes = 16 \<rparr>] =
     Inr (\<lparr> n_layer = 1, n_window = 0, n_gpu_static = 0, entries = [\<lparr> il = 0, tier = LLAMA_TIER_CPU, xfer_state = LLAMA_XFER_IDLE, weight_bytes = 16, staging_slot = 0, saved_ptrs = [\<lparr> tensor = 1, orig_data = 100, orig_buffer = 7 \<rparr>] \<rparr>], active_slot = 0, staging_gpu_buffer = (5, 6) \<rparr>, [1 \<mapsto> \<lparr> data = 9000, buffer = 5, nbytes = 16 \<rparr>]) \<and>
   swap_layer_to_cpu \<lparr> n_layer = 1, n_window = 0, n_gpu_static = 0, entries = [\<lparr> il = 0, tier = LLAMA_TIER_CPU, xfer_state = LLAMA_XFER_IDLE, weight_bytes = 16, staging_slot = 0, saved_ptrs = [\<lparr> tensor = 1, orig_data = 100, orig_buffer = 7 \<rparr>] \<rparr>], active_slot = 0, staging_gpu_buffer = (5, 6) \<rparr> 0 [Some 1] [1 \<mapsto> \<lparr> data = 9000, buffer = 5, nbytes = 16 \<rparr>] =
     Inr (\<lparr> n_layer = 1, n_window = 0, n_gpu_static = 0, entries = [\<lparr> il = 0, tier = LLAMA_TIER_CPU, xfer_state = LLAMA_XFER_IDLE, weight_bytes = 16, staging_slot = - 1, saved_ptrs = [] \<rparr>], active_slot = 0, staging_gpu_buffer = (5, 6) \<rparr>, [1 \<mapsto> \<lparr> data = 100, buffer = 7, nbytes = 16 \<rparr>]) \<and>
   [1 \<mapsto> \<lparr> data = 100, buffer = 7, nbytes = 16 \<rparr>] 1 \<noteq> [1 \<mapsto> \<lparr> data = 9000, buffer = 5, nbytes = 16 \<rparr>] 1 \<and>
   swap_cycle ((*) 1000) 0 [Some 1, Some 1]
     (\<lparr> n_layer = 1, n_window = 0, n_gpu_static = 0, entries = [\<lparr> il = 0, tier = LLAMA_TIER_CPU, xfer_state = LLAMA_XFER_IDLE, weight_bytes = 16, staging_slot = - 1, saved_ptrs = [] \<rparr>], active_slot = 0, staging_gpu_buffer = (5, 6) \<rparr>, [1 \<mapsto> \<lparr> data = 100, buffer = 7, nbytes = 16 \<rparr>]) =
     Inr (\<lparr> n_layer = 1, n_window = 0, n_gpu_static = 0, entries = [\<lparr> il = 0, tier = LLAMA_TIER_CPU, xfer_state = LLAMA_XFER_IDLE, weight_bytes = 16, staging_slot = - 1, saved_ptrs = [] \<rparr>], active_slot = 0, staging_gpu_buffer = (5, 6) \<rparr>, [1 \<mapsto> \<lparr> data = 5000, buffer = 5, nbytes = 16 \<rparr>]) \<and>
   [1 \<mapsto> \<lparr> data = 5000, buffer = 5, nbytes = 16 \<rparr>] 1 \<noteq> [1 \<mapsto> \<lparr> data = 100, buffer = 7, nbytes = 16 \<rparr>] 1"
  by (simp add: swap_cycle_def swap_layer_to_gpu_def swap_layer_to_cpu_def)

end
